theory Spec2Isabelle
  imports Main "HOL-Library.Sublist" "HOL-Library.Word"
begin

section \<open>Values, log events and the browser driver\<close>

text \<open>
  The repository drives a browser through Playwright. Everything Playwright does is
  outside the repository, so it is a parameter of the model: a record of driver
  functions over an abstract environment \<open>'w\<close>. A driver call that can reject returns
  the thrown value; every theorem below that quantifies over the driver holds for
  every behaviour of the browser.

  A JavaScript \<open>throw\<close> can carry any value. \<open>ErrorObj m\<close> is an \<open>Error\<close> object with
  message \<open>m\<close>; \<open>NonError v\<close> is any other thrown value, \<open>v\<close> being what \<open>String(value)\<close>
  gives for it.
\<close>

type_synonym handle = nat

datatype thrown = ErrorObj string | NonError string

text \<open>
  Strings the code only passes on or matches against ASCII keywords (selectors, URLs,
  messages) are \<open>string\<close>. The text \<open>getText\<close> trims is a JavaScript string, a
  sequence of UTF-16 code units, since \<open>trim\<close> removes code units beyond ASCII.
\<close>

type_synonym jsstring = "16 word list"

datatype level = DEBUG | INFO | WARN | ERROR | CONSOLE_LOG | CONSOLE_ERROR

datatype logarg = S string | N int | E thrown

text \<open>
  The trace records, in order, every call the code makes to the driver (at the moment
  the call is issued, whatever its outcome), every log line (the literal text of the
  template with the interpolated values beside it; colour codes and pictographs of the
  console lines are left out), every timer sleep and the process exit.
\<close>

datatype event =
    Log level string "logarg list"
  | Launch
  | NewContext handle
  | NewPage handle
  | ClosePage handle
  | CloseContext handle
  | CloseBrowser handle
  | WaitForLoadState handle "nat option"
  | Invoke handle
  | Sleep nat
  | LoadUrl handle string
  | WaitForTimeout handle nat
  | OnDialog handle
  | LocatorCount handle string
  | LocatorClick handle string
  | Exit nat

record 'w driver =
  launch :: "'w \<Rightarrow> (thrown + handle) \<times> 'w"
  newContext :: "handle \<Rightarrow> 'w \<Rightarrow> (thrown + handle) \<times> 'w"
  newPage :: "handle \<Rightarrow> 'w \<Rightarrow> (thrown + handle) \<times> 'w"
  isClosed :: "handle \<Rightarrow> 'w \<Rightarrow> bool"
  isConnected :: "handle \<Rightarrow> 'w \<Rightarrow> bool"
  closePage :: "handle \<Rightarrow> 'w \<Rightarrow> thrown option \<times> 'w"
  closeContext :: "handle \<Rightarrow> 'w \<Rightarrow> thrown option \<times> 'w"
  closeBrowser :: "handle \<Rightarrow> 'w \<Rightarrow> thrown option \<times> 'w"
  waitForLoadState :: "handle \<Rightarrow> nat option \<Rightarrow> 'w \<Rightarrow> thrown option \<times> 'w"
  loadUrl :: "handle \<Rightarrow> string \<Rightarrow> 'w \<Rightarrow> thrown option \<times> 'w"
  waitForTimeout :: "handle \<Rightarrow> nat \<Rightarrow> 'w \<Rightarrow> thrown option \<times> 'w"
  locatorCount :: "handle \<Rightarrow> string \<Rightarrow> 'w \<Rightarrow> (thrown + nat) \<times> 'w"
  locatorClick :: "handle \<Rightarrow> string \<Rightarrow> 'w \<Rightarrow> thrown option \<times> 'w"
  waitForSelector :: "handle \<Rightarrow> string \<Rightarrow> nat \<Rightarrow> 'w \<Rightarrow> thrown option \<times> 'w"
  evalTextContent :: "handle \<Rightarrow> string \<Rightarrow> 'w \<Rightarrow> (thrown + jsstring option) \<times> 'w"

section \<open>The Session Store: \<open>BrowserManager\<close> (playwrightToolHandler.ts)\<close>

text \<open>
  The singleton's four private fields; \<open>null\<close> is \<open>None\<close>. The field \<open>context\<close> of the
  source is \<open>bcontext\<close> here.
\<close>

record BrowserManager =
  browser :: "handle option"
  bcontext :: "handle option"
  page :: "handle option"
  isInitializing :: bool

record 'w state =
  store :: BrowserManager
  trace :: "event list"
  env :: 'w

definition emit :: "event \<Rightarrow> 'w state \<Rightarrow> 'w state" where
  "emit e s = s\<lparr>trace := trace s @ [e]\<rparr>"

definition logger :: "level \<Rightarrow> string \<Rightarrow> logarg list \<Rightarrow> 'w state \<Rightarrow> 'w state" where
  "logger l m args s = emit (Log l m args) s"

text \<open>An awaited driver call: the event is recorded, then the driver answers.\<close>

definition call :: "event \<Rightarrow> ('w \<Rightarrow> 'r \<times> 'w) \<Rightarrow> 'w state \<Rightarrow> 'r \<times> 'w state" where
  "call e f s = (case f (env s) of (r, w) \<Rightarrow> (r, (emit e s)\<lparr>env := w\<rparr>))"

text \<open>Sequencing inside a \<open>try\<close> block: a rejected step skips the steps after it.\<close>

definition thenE ::
  "thrown option \<times> 's \<Rightarrow> ('s \<Rightarrow> thrown option \<times> 's) \<Rightarrow> thrown option \<times> 's" where
  "thenE r f = (case r of (Some e, s) \<Rightarrow> (Some e, s) | (None, s) \<Rightarrow> f s)"

subsection \<open>\<open>reset\<close>\<close>

text \<open>
  The three closes stand in ONE \<open>try\<close> block (lines 39-48); the \<open>catch\<close> logs, the
  \<open>finally\<close> clears the three handles and logs. \<open>isInitializing\<close> is not touched.
\<close>

definition reset_page :: "'w driver \<Rightarrow> 'w state \<Rightarrow> thrown option \<times> 'w state" where
  "reset_page D s =
     (case page (store s) of
        Some p \<Rightarrow> if \<not> isClosed D p (env s) then call (ClosePage p) (closePage D p) s
                  else (None, s)
      | None \<Rightarrow> (None, s))"

definition reset_context :: "'w driver \<Rightarrow> 'w state \<Rightarrow> thrown option \<times> 'w state" where
  "reset_context D s =
     (case bcontext (store s) of
        Some c \<Rightarrow> call (CloseContext c) (closeContext D c) s
      | None \<Rightarrow> (None, s))"

definition reset_browser :: "'w driver \<Rightarrow> 'w state \<Rightarrow> thrown option \<times> 'w state" where
  "reset_browser D s =
     (case browser (store s) of
        Some b \<Rightarrow> call (CloseBrowser b) (closeBrowser D b) s
      | None \<Rightarrow> (None, s))"

definition reset_try :: "'w driver \<Rightarrow> 'w state \<Rightarrow> thrown option \<times> 'w state" where
  "reset_try D s = thenE (thenE (reset_page D s) (reset_context D)) (reset_browser D)"

definition reset_finally :: "'w state \<Rightarrow> 'w state" where
  "reset_finally s =
     logger INFO ''Browser state reset'' []
       (s\<lparr>store := (store s)\<lparr>page := None, bcontext := None, browser := None\<rparr>\<rparr>)"

definition reset :: "'w driver \<Rightarrow> 'w state \<Rightarrow> 'w state" where
  "reset D s =
     (case reset_try D s of
        (Some e, s1) \<Rightarrow> reset_finally (logger ERROR ''Error resetting browser state'' [E e] s1)
      | (None, s1) \<Rightarrow> reset_finally s1)"

text \<open>
  \<open>resetBrowserState\<close> (lines 143-145) calls \<open>browserManager.reset()\<close> and does not await
  it. An \<open>async\<close> function runs inside the call up to its first \<open>await\<close>, and the rest of its
  body runs only after the caller has given up control. So by the time \<open>resetBrowserState\<close>
  returns, \<open>reset\<close> has evaluated its conditions in order and issued the first close that
  applies, and nothing else: that close has not settled (the world is as it was), the
  later closes have not been issued, and the \<open>finally\<close> block has not run, so the three
  handles are still set. Only when no close applies does \<open>reset\<close> reach no \<open>await\<close> at
  all, and its \<open>finally\<close> block runs inside the call. What the pending rest of \<open>reset\<close>
  does later is on no timeline of the caller and is not part of what \<open>resetBrowserState\<close>
  returns.
\<close>

definition openPage :: "'w driver \<Rightarrow> 'w state \<Rightarrow> handle option" where
  "openPage D s =
     (case page (store s) of
        Some p \<Rightarrow> if \<not> isClosed D p (env s) then Some p else None
      | None \<Rightarrow> None)"

definition resetBrowserState :: "'w driver \<Rightarrow> 'w state \<Rightarrow> 'w state" where
  "resetBrowserState D s =
     (case openPage D s of
        Some p \<Rightarrow> emit (ClosePage p) s
      | None \<Rightarrow>
          (case bcontext (store s) of
             Some c \<Rightarrow> emit (CloseContext c) s
           | None \<Rightarrow>
               (case browser (store s) of
                  Some b \<Rightarrow> emit (CloseBrowser b) s
                | None \<Rightarrow> reset_finally s)))"

subsection \<open>\<open>getBrowser\<close>\<close>

text \<open>
  The poll of lines 76-88 sleeps 100 ms while \<open>isInitializing\<close> is set. Only a
  concurrent caller can clear the flag; on the single timeline modelled here nothing
  does, and the loop does not return: its value is \<open>None\<close>. The debug line inside the loop depends
  on the wall clock and is left out.
\<close>

partial_function (option) waitInit :: "'w state \<Rightarrow> 'w state option" where
  "waitInit s = (if isInitializing (store s) then waitInit (emit (Sleep 100) s) else Some s)"

declare waitInit.simps [code]

definition available :: "'w driver \<Rightarrow> 'w state \<Rightarrow> (handle \<times> handle) option" where
  "available D s =
     (case (browser (store s), page (store s)) of
        (Some b, Some p) \<Rightarrow> if \<not> isClosed D p (env s) then Some (b, p) else None
      | _ \<Rightarrow> None)"

definition setInitializing :: "bool \<Rightarrow> 'w state \<Rightarrow> 'w state" where
  "setInitializing v s = s\<lparr>store := (store s)\<lparr>isInitializing := v\<rparr>\<rparr>"

text \<open>The \<open>try\<close> block of lines 98-127: each handle is stored as soon as it exists.\<close>

definition launchBrowser :: "'w driver \<Rightarrow> 'w state \<Rightarrow> (thrown + handle \<times> handle) \<times> 'w state" where
  "launchBrowser D s0 =
     (let s = logger INFO ''Launching new browser instance...'' [] s0 in
      case call Launch (launch D) s of
        (Inl e, s1) \<Rightarrow> (Inl e, s1)
      | (Inr b, s1) \<Rightarrow>
          (let s2 = s1\<lparr>store := (store s1)\<lparr>browser := Some b\<rparr>\<rparr> in
           case call (NewContext b) (newContext D b) s2 of
             (Inl e, s3) \<Rightarrow> (Inl e, s3)
           | (Inr c, s3) \<Rightarrow>
               (let s4 = s3\<lparr>store := (store s3)\<lparr>bcontext := Some c\<rparr>\<rparr> in
                case call (NewPage c) (newPage D c) s4 of
                  (Inl e, s5) \<Rightarrow> (Inl e, s5)
                | (Inr p, s5) \<Rightarrow>
                    (let s6 = s5\<lparr>store := (store s5)\<lparr>page := Some p\<rparr>\<rparr> in
                     (Inr (b, p), logger INFO ''Browser launched successfully'' [] s6)))))"

definition initialize :: "'w driver \<Rightarrow> 'w state \<Rightarrow> (thrown + handle \<times> handle) \<times> 'w state" where
  "initialize D s =
     (case launchBrowser D (setInitializing True s) of
        (Inl e, s1) \<Rightarrow>
          (Inl e, setInitializing False (logger ERROR ''Failed to initialize browser'' [E e] s1))
      | (Inr r, s1) \<Rightarrow> (Inr r, setInitializing False s1))"

definition getBrowser ::
  "'w driver \<Rightarrow> 'w state \<Rightarrow> ((thrown + handle \<times> handle) \<times> 'w state) option" where
  "getBrowser D s =
     (case available D s of
        Some r \<Rightarrow> Some (Inr r, logger INFO ''Reusing existing browser instance'' [] s)
      | None \<Rightarrow>
          if isInitializing (store s) then
            (case waitInit (logger INFO ''Browser initialization in progress, waiting...'' [] s) of
               None \<Rightarrow> None
             | Some s1 \<Rightarrow>
                 (case available D s1 of
                    Some r \<Rightarrow> Some (Inr r, s1)
                  | None \<Rightarrow> Some (initialize D s1)))
          else Some (initialize D s))"

text \<open>\<open>ensureBrowser\<close> keeps the page of what \<open>getBrowser\<close> returns.\<close>

definition ensureBrowser :: "'w driver \<Rightarrow> 'w state \<Rightarrow> ((thrown + handle) \<times> 'w state) option" where
  "ensureBrowser D s =
     (case getBrowser D s of
        None \<Rightarrow> None
      | Some (Inl e, s1) \<Rightarrow> Some (Inl e, s1)
      | Some (Inr (b, p), s1) \<Rightarrow> Some (Inr p, s1))"


section \<open>The Action Executor: \<open>safeBrowserOperation\<close> (browserBaseTools.ts)\<close>

text \<open>
  An operation is a function of the page that acts on the browser and the world outside
  (the environment \<open>'w\<close>) and returns or throws. The \<open>context\<close> parameter of the source
  is unused and left out. \<open>maxRetries\<close> is a JavaScript number with default 1; the model
  takes the integers, and a caller that leaves it out passes 1.
\<close>

type_synonym ('w, 'a) operation = "handle \<Rightarrow> 'w \<Rightarrow> (thrown + 'a) \<times> 'w"

fun toError :: "thrown \<Rightarrow> thrown" where
  "toError (ErrorObj m) = ErrorObj m"
| "toError (NonError v) = ErrorObj v"

text \<open>Lines 31-35: the wait for \<open>domcontentloaded\<close> with its own \<open>.catch\<close>.\<close>

definition awaitLoadState :: "'w driver \<Rightarrow> handle \<Rightarrow> 'w state \<Rightarrow> 'w state" where
  "awaitLoadState D p s1 =
     (case call (WaitForLoadState p None) (waitForLoadState D p None) s1 of
        (Some e, s2) \<Rightarrow>
          logger WARN ''Page did not reach domcontentloaded state, continuing anyway'' [] s2
      | (None, s2) \<Rightarrow> s2)"

text \<open>The \<open>try\<close> block of one turn of the loop (lines 26-39).\<close>

definition attempt ::
  "'w driver \<Rightarrow> ('w, 'a) operation \<Rightarrow> 'w state \<Rightarrow> ((thrown + 'a) \<times> 'w state) option" where
  "attempt D operation s =
     (case ensureBrowser D s of
        None \<Rightarrow> None
      | Some (Inl e, s1) \<Rightarrow> Some (Inl e, s1)
      | Some (Inr p, s1) \<Rightarrow> Some (call (Invoke p) (operation p) (awaitLoadState D p s1)))"

text \<open>
  The \<open>catch\<close> block of lines 40-52: the error is logged, the counter goes up, and
  when a retry follows it is announced and one second passes. \<open>retries\<close> is the counter
  before the increment.
\<close>

definition afterFailure :: "int \<Rightarrow> int \<Rightarrow> thrown \<Rightarrow> 'w state \<Rightarrow> 'w state" where
  "afterFailure maxRetries retries e s1 =
     (let s2 = logger ERROR ''Browser operation failed:'' [E e] s1
      in if retries + 1 \<le> maxRetries
         then emit (Sleep 1000)
                (logger INFO ''Retrying operation (${retries}/${maxRetries})...''
                   [N (retries + 1), N maxRetries] s2)
         else s2)"

function safeLoop ::
  "'w driver \<Rightarrow> ('w, 'a) operation \<Rightarrow> int \<Rightarrow> int \<Rightarrow> thrown option \<Rightarrow> 'w state
     \<Rightarrow> ((thrown + 'a) \<times> 'w state) option" where
  "safeLoop D operation maxRetries retries lastError s =
     (if retries \<le> maxRetries then
        (case attempt D operation s of
           None \<Rightarrow> None
         | Some (Inr r, s1) \<Rightarrow> Some (Inr r, s1)
         | Some (Inl e, s1) \<Rightarrow>
             safeLoop D operation maxRetries (retries + 1) (Some (toError e))
               (afterFailure maxRetries retries e s1))
      else Some (Inl (case lastError of
                        Some e \<Rightarrow> e
                      | None \<Rightarrow> ErrorObj ''Operation failed after retries''), s))"
  by pat_completeness auto
termination
  by (relation "measure (\<lambda>(D, operation, maxRetries, retries, lastError, s).
                  nat (maxRetries + 1 - retries))") auto

declare safeLoop.simps [simp del]

definition safeBrowserOperation ::
  "'w driver \<Rightarrow> ('w, 'a) operation \<Rightarrow> int \<Rightarrow> 'w state \<Rightarrow> ((thrown + 'a) \<times> 'w state) option" where
  "safeBrowserOperation D operation maxRetries s = safeLoop D operation maxRetries 0 None s"

section \<open>The Navigation Controller: \<open>navigateToUrl\<close>\<close>

definition LoadTimeOut :: nat where
  "LoadTimeOut = 60000"

text \<open>
  \<open>loadUrl\<close> is the \<open>Promise.all\<close> of \<open>page.waitForNavigation()\<close> and
  \<open>page.goto(url, {waitUntil: "domcontentloaded", timeout: 0})\<close>: it rejects when either
  does. The wait of line 437 stands in the \<open>catch\<close> block, so its rejection leaves
  \<open>openInternal\<close>.
\<close>

function openInternal ::
  "'w driver \<Rightarrow> handle \<Rightarrow> string \<Rightarrow> nat \<Rightarrow> 'w state \<Rightarrow> thrown option \<times> 'w state" where
  "openInternal D p navigationUrl retryCount s =
     (case call (LoadUrl p navigationUrl) (loadUrl D p navigationUrl) s of
        (None, s1) \<Rightarrow> (None, logger INFO ''Navigate to URL: ${navigationUrl}'' [S navigationUrl] s1)
      | (Some e, s1) \<Rightarrow>
          if retryCount < 3 then
            (let waitTime = 5000 * (retryCount + 1);
                 s2 = logger ERROR ''Error occurred while navigating to URL: '' [E e] s1;
                 s3 = logger INFO
                        ''Failed to navigate to URL ${navigationUrl}, waiting ${waitTime}ms and retrying. Retry # ${retryCount + 1}''
                        [S navigationUrl, N (int waitTime), N (int (retryCount + 1))] s2
             in case call (WaitForTimeout p waitTime) (waitForTimeout D p waitTime) s3 of
                  (Some e', s4) \<Rightarrow> (Some e', s4)
                | (None, s4) \<Rightarrow> openInternal D p navigationUrl (retryCount + 1) s4)
          else (None, s1))"
  by pat_completeness auto
termination
  by (relation "measure (\<lambda>(D, p, navigationUrl, retryCount, s). 3 - retryCount)") auto

declare openInternal.simps [simp del]

definition navigateToUrl ::
  "'w driver \<Rightarrow> handle \<Rightarrow> string \<Rightarrow> bool \<Rightarrow> 'w state \<Rightarrow> thrown option \<times> 'w state" where
  "navigateToUrl D p navigationUrl waitToLoadDomContent s =
     (case openInternal D p navigationUrl 0 s of
        (Some e, s1) \<Rightarrow> (Some e, s1)
      | (None, s1) \<Rightarrow>
          if waitToLoadDomContent
          then call (WaitForLoadState p (Some LoadTimeOut))
                 (waitForLoadState D p (Some LoadTimeOut)) s1
          else (None, s1))"

section \<open>\<open>closeBrowserTool\<close> and the failure handler\<close>

text \<open>The interface \<open>ToolContext\<close>: \<open>browser\<close> and \<open>context\<close> are optional.\<close>

record ToolContext =
  tc_page :: handle
  tc_browser :: "handle option"
  tc_context :: "handle option"

text \<open>
  The second argument of the tool function is cast to \<open>ToolContext\<close> without a check
  (line 566) and \<open>toolContext.browser\<close> is read at once (line 568). The framework may call
  the function with no second argument; the context is then \<open>undefined\<close>, here \<open>None\<close>, and
  the read throws a \<open>TypeError\<close> before anything else is done.
\<close>

definition typeError :: thrown where
  "typeError = ErrorObj ''TypeError: Cannot read properties of undefined (reading browser)''"

text \<open>
  \<open>isConnected()\<close> is synchronous and \<open>close()\<close> carries its own \<open>.catch\<close>, so the
  outer \<open>catch\<close> of lines 580-581 has nothing to catch. The \<open>finally\<close> block calls
  \<open>resetBrowserState\<close>, which returns with the reset still pending.
\<close>

definition closeBrowserTool ::
  "'w driver \<Rightarrow> ToolContext option \<Rightarrow> 'w state \<Rightarrow> (thrown + string) \<times> 'w state" where
  "closeBrowserTool D ctx s =
     (case ctx of
        None \<Rightarrow> (Inl typeError, s)
      | Some toolContext \<Rightarrow>
          (case tc_browser toolContext of
             Some b \<Rightarrow>
               (let s1 = (if isConnected D b (env s) then
                            (case call (CloseBrowser b) (closeBrowser D b) s of
                               (Some e, s') \<Rightarrow>
                                 logger CONSOLE_ERROR ''Error while closing browser:'' [E e] s'
                             | (None, s') \<Rightarrow> s')
                          else logger CONSOLE_ERROR
                                 ''Browser already disconnected, cleaning up state'' [] s)
                in (Inr ''Browser closed successfully'', resetBrowserState D s1))
           | None \<Rightarrow> (Inr ''No browser instance to close'', s)))"

text \<open>
  \<open>error.message.includes(k)\<close>: \<open>k\<close> occurs in the message as a contiguous run,
  case-sensitively.
\<close>

fun includes_str :: "string \<Rightarrow> string \<Rightarrow> bool" where
  "includes_str [] k = (k = [])"
| "includes_str (c # cs) k = (prefix k (c # cs) \<or> includes_str cs k)"

text \<open>
  \<open>closeBrowserTool.invoke("{}")\<close> goes through the tool framework, which is not part of
  the repository: it either rejects the call before the tool function runs, or runs the
  function with a second argument of its choosing, which may be missing. Which of these
  happens is a parameter. The handler itself passes no context and never reads the
  \<open>BrowserManager\<close>.
\<close>

datatype invocation = Rejects thrown | Runs "ToolContext option"

text \<open>
  \<open>handleToolError(error)\<close>, lines 66-89; \<open>msg\<close> is \<open>error.message\<close>. \<open>process.exit(1)\<close>
  ends the run: the handler does not return, which is the outcome \<open>Exited 1\<close>.
\<close>

datatype outcome = Returned | Exited nat

definition handleToolError ::
  "'w driver \<Rightarrow> invocation \<Rightarrow> string \<Rightarrow> 'w state \<Rightarrow> outcome \<times> 'w state" where
  "handleToolError D fw msg s =
     (let s1 = logger ERROR ''TOOL_FAILED'' [E (ErrorObj msg)] s;
          s2 = logger CONSOLE_LOG ''TOOL FAILED: ${error.message}'' [S msg] s1;
          s3 = logger CONSOLE_LOG ''Attempting to close browser due to test failure'' [] s2;
          s5 = (case fw of
                  Runs ctx \<Rightarrow>
                    (case closeBrowserTool D ctx s3 of
                       (Inr closed, s4) \<Rightarrow>
                         logger INFO ''Browser closed due to test failure'' [] s4
                     | (Inl closeError, s4) \<Rightarrow>
                         logger ERROR ''Failed to close browser after test failure''
                           [E closeError] s4)
                | Rejects closeError \<Rightarrow>
                    logger ERROR ''Failed to close browser after test failure'' [E closeError] s3)
      in if includes_str msg ''critical'' \<or> includes_str msg ''timeout''
         then (Exited 1,
               emit (Exit 1) (logger CONSOLE_LOG ''CRITICAL TEST FAILURE - EXITING PROCESS'' [] s5))
         else (Returned, s5))"

section \<open>The Popup Suppressor: \<open>handleCommonPopups\<close>\<close>

definition commonConsentSelectors :: "string list" where
  \<open>commonConsentSelectors =
     [''button[aria-label*="Accept"]'',
      ''button[aria-label*="Cookie"]'',
      ''button:has-text("Accept")'',
      ''button:has-text("Accept All")'',
      ''button:has-text("I Agree")'',
      ''button:has-text("I Accept")'',
      ''button:has-text("Allow")'',
      ''button:has-text("Close")'',
      ''button:has-text("Got it")'',
      ''.cookie-consent button'',
      ''#consent button'',
      ''#consent-popup button'',
      ''.consent-banner button'']\<close>

text \<open>
  The \<open>for\<close> loop of lines 90-100 over the rest of the list. \<open>locatorCount\<close> is
  \<open>page.locator(selector).first().count()\<close> and \<open>locatorClick\<close> the \<open>click()\<close> of that
  locator. The \<open>count\<close> is awaited outside any \<open>catch\<close>.
\<close>

fun scanSelectors ::
  "'w driver \<Rightarrow> handle \<Rightarrow> string list \<Rightarrow> 'w state \<Rightarrow> thrown option \<times> 'w state" where
  "scanSelectors D p [] s = (None, s)"
| "scanSelectors D p (selector # rest) s =
     (case call (LocatorCount p selector) (locatorCount D p selector) s of
        (Inl e, s1) \<Rightarrow> (Some e, s1)
      | (Inr count, s1) \<Rightarrow>
          if count > 0 then
            (let s2 = logger INFO ''Found consent button with selector: ${selector}''
                        [S selector] s1
             in case call (LocatorClick p selector) (locatorClick D p selector) s2 of
                  (Some e, s3) \<Rightarrow>
                    (None, logger INFO ''Failed to click consent button: ${e.message}'' [E e] s3)
                | (None, s3) \<Rightarrow> (None, s3))
          else scanSelectors D p rest s1)"

definition handleCommonPopups :: "'w driver \<Rightarrow> handle \<Rightarrow> 'w state \<Rightarrow> thrown option \<times> 'w state" where
  "handleCommonPopups D p s =
     scanSelectors D p commonConsentSelectors
       (emit (OnDialog p)
          (logger INFO ''Setting up popup handlers and checking for existing popups'' [] s))"

section \<open>\<open>getTextTool\<close>\<close>

text \<open>
  \<open>String.prototype.trim\<close> removes the code units of ECMAScript's WhiteSpace and
  LineTerminator from both ends.
\<close>

definition isWhiteSpace :: "16 word \<Rightarrow> bool" where
  "isWhiteSpace c \<longleftrightarrow>
     c \<in> {0x9, 0xA, 0xB, 0xC, 0xD, 0x20, 0xA0, 0x1680, 0x2028, 0x2029, 0x202F, 0x205F,
          0x3000, 0xFEFF} \<or> (0x2000 \<le> c \<and> c \<le> 0x200A)"

definition trim :: "jsstring \<Rightarrow> jsstring" where
  "trim t = rev (dropWhile isWhiteSpace (rev (dropWhile isWhiteSpace t)))"

text \<open>The callback \<open>(el) => el.textContent?.trim() || ""\<close> on the element's text.\<close>

definition textOf :: "jsstring option \<Rightarrow> jsstring" where
  "textOf textContent =
     (case textContent of
        None \<Rightarrow> []
      | Some t \<Rightarrow> if trim t = [] then [] else trim t)"

definition js :: "string \<Rightarrow> jsstring" where
  "js cs = map of_char cs"

record getTextResult =
  gt_result :: jsstring
  gt_text :: jsstring

text \<open>
  \<open>evalTextContent\<close> is \<open>page.$eval(selector, f)\<close> up to the callback: it finds the
  first element of the selector and reads its \<open>textContent\<close> (\<open>None\<close> is \<open>null\<close>), or
  rejects when no element matches.
\<close>

definition getTextOperation ::
  "'w driver \<Rightarrow> string \<Rightarrow> nat \<Rightarrow> ('w, getTextResult) operation" where
  "getTextOperation D selector timeout p w =
     (case waitForSelector D p selector timeout w of
        (Some e, w1) \<Rightarrow> (Inl e, w1)
      | (None, w1) \<Rightarrow>
          (case evalTextContent D p selector w1 of
             (Inl e, w2) \<Rightarrow> (Inl e, w2)
           | (Inr textContent, w2) \<Rightarrow>
               (Inr \<lparr>gt_result = js ''Text content: '' @ textOf textContent,
                     gt_text = textOf textContent\<rparr>, w2)))"

definition getTextTool ::
  "'w driver \<Rightarrow> string \<Rightarrow> nat \<Rightarrow> 'w state \<Rightarrow> ((thrown + getTextResult) \<times> 'w state) option" where
  "getTextTool D selector timeout s =
     safeBrowserOperation D (getTextOperation D selector timeout) 1 s"


section \<open>Histories of the Session Store\<close>

text \<open>
  A history on one timeline: calls of \<open>reset\<close> and \<open>getBrowser\<close> in any order, with
  arbitrary changes of the outside world between them (a page that closes, a browser
  that dies). A call that throws leaves its state behind and the history goes on.
\<close>

datatype 'w store_op = Reset | GetBrowser | World "'w \<Rightarrow> 'w"

fun run :: "'w driver \<Rightarrow> 'w store_op list \<Rightarrow> 'w state \<Rightarrow> 'w state option" where
  "run D [] s = Some s"
| "run D (Reset # ops) s = run D ops (reset D s)"
| "run D (GetBrowser # ops) s =
     (case getBrowser D s of None \<Rightarrow> None | Some (r, s1) \<Rightarrow> run D ops s1)"
| "run D (World f # ops) s = run D ops (s\<lparr>env := f (env s)\<rparr>)"

definition emptyStore :: BrowserManager where
  "emptyStore = \<lparr>browser = None, bcontext = None, page = None, isInitializing = False\<rparr>"

definition initial :: "'w \<Rightarrow> 'w state" where
  "initial w = \<lparr>store = emptyStore, trace = [], env = w\<rparr>"

section \<open>Reading a trace\<close>

definition isInvoke :: "event \<Rightarrow> bool" where
  "isInvoke ev = (case ev of Invoke p \<Rightarrow> True | _ \<Rightarrow> False)"

definition isLoadStateWait :: "event \<Rightarrow> bool" where
  "isLoadStateWait ev = (case ev of WaitForLoadState p t \<Rightarrow> True | _ \<Rightarrow> False)"

definition isClick :: "event \<Rightarrow> bool" where
  "isClick ev = (case ev of LocatorClick p sel \<Rightarrow> True | _ \<Rightarrow> False)"

definition isCount :: "event \<Rightarrow> bool" where
  "isCount ev = (case ev of LocatorCount p sel \<Rightarrow> True | _ \<Rightarrow> False)"

definition isClose :: "event \<Rightarrow> bool" where
  "isClose ev =
     (case ev of ClosePage p \<Rightarrow> True | CloseContext c \<Rightarrow> True | CloseBrowser b \<Rightarrow> True
      | _ \<Rightarrow> False)"

text \<open>The errors the executor caught, in order: the argument of each line of line 42.\<close>

fun failureOf :: "event \<Rightarrow> thrown option" where
  "failureOf (Log l m args) =
     (if l = ERROR \<and> m = ''Browser operation failed:''
      then (case args of [E e] \<Rightarrow> Some e | _ \<Rightarrow> None) else None)"
| "failureOf _ = None"

definition failures :: "event list \<Rightarrow> thrown list" where
  "failures t = List.map_filter failureOf t"

definition invocations :: "event list \<Rightarrow> nat" where
  "invocations t = length (filter isInvoke t)"

definition loadStateWaits :: "event list \<Rightarrow> nat" where
  "loadStateWaits t = length (filter isLoadStateWait t)"

text \<open>The one-second sleeps between two attempts of the executor (line 50).\<close>

definition retrySleeps :: "event list \<Rightarrow> nat" where
  "retrySleeps t = length (filter (\<lambda>ev. ev = Sleep 1000) t)"

text \<open>The warning the executor logs when its load-state wait is rejected (line 26).\<close>

definition isLoadStateWarning :: "event \<Rightarrow> bool" where
  "isLoadStateWarning ev \<longleftrightarrow>
     ev = Log WARN ''Page did not reach domcontentloaded state, continuing anyway'' []"

text \<open>An event that is none of the executor's own.\<close>

definition quiet :: "event \<Rightarrow> bool" where
  "quiet ev \<longleftrightarrow>
     \<not> isInvoke ev \<and> \<not> isLoadStateWait ev \<and> \<not> isLoadStateWarning ev \<and>
     ev \<noteq> Sleep 1000 \<and> failureOf ev = None"

text \<open>
  What the executor does around an operation, read off a trace: a load-state wait on a
  page, the warning of a rejected wait, an invocation of the operation on a page.
\<close>

datatype step = Waits handle | Warns | Invokes handle

fun stepOf :: "event \<Rightarrow> step option" where
  "stepOf (WaitForLoadState p t) = Some (Waits p)"
| "stepOf (Invoke p) = Some (Invokes p)"
| "stepOf (Log l m args) = (if isLoadStateWarning (Log l m args) then Some Warns else None)"
| "stepOf ev = None"

definition steps :: "event list \<Rightarrow> step list" where
  "steps t = List.map_filter stepOf t"

text \<open>
  Every wait is followed by an invocation on the same page, with at most the one
  warning in between, and there is no invocation without its wait.
\<close>

fun waitsThenInvokes :: "step list \<Rightarrow> bool" where
  "waitsThenInvokes [] = True"
| "waitsThenInvokes (Waits p # Invokes q # t) = (p = q \<and> waitsThenInvokes t)"
| "waitsThenInvokes (Waits p # Warns # Invokes q # t) = (p = q \<and> waitsThenInvokes t)"
| "waitsThenInvokes t = False"

text \<open>Two states that differ in the warnings of the load-state wait only.\<close>

definition sameButWarnings :: "'w state \<Rightarrow> 'w state \<Rightarrow> bool" where
  "sameButWarnings s' s \<longleftrightarrow>
     store s' = store s \<and> env s' = env s \<and>
     filter (\<lambda>ev. \<not> isLoadStateWarning ev) (trace s') =
     filter (\<lambda>ev. \<not> isLoadStateWarning ev) (trace s)"

text \<open>
  The loads and backoff waits of a navigation, and the schedule they follow from retry
  index \<open>k\<close> on: a load, then for each retry left a wait of \<open>5000 * (index + 1)\<close>
  milliseconds and a load.
\<close>

definition isNavStep :: "event \<Rightarrow> bool" where
  "isNavStep ev = (case ev of LoadUrl p u \<Rightarrow> True | WaitForTimeout p n \<Rightarrow> True | _ \<Rightarrow> False)"

definition scheduleFrom :: "handle \<Rightarrow> string \<Rightarrow> nat \<Rightarrow> event list" where
  "scheduleFrom p u k =
     LoadUrl p u # concat (map (\<lambda>j. [WaitForTimeout p (5000 * (j + 1)), LoadUrl p u]) [k..<3])"

text \<open>
  The state in which \<open>openInternal\<close> retries after a failed load at retry index \<open>k\<close>:
  the load, the two log lines and the backoff wait of the \<open>catch\<close> block are done.
\<close>

definition backoffState :: "'w driver \<Rightarrow> handle \<Rightarrow> string \<Rightarrow> nat \<Rightarrow> thrown \<Rightarrow> 'w state \<Rightarrow> 'w state" where
  "backoffState D p u k e s =
     snd (call (WaitForTimeout p (5000 * (k + 1))) (waitForTimeout D p (5000 * (k + 1)))
       (logger INFO
          ''Failed to navigate to URL ${navigationUrl}, waiting ${waitTime}ms and retrying. Retry # ${retryCount + 1}''
          [S u, N (int (5000 * (k + 1))), N (int (k + 1))]
          (logger ERROR ''Error occurred while navigating to URL: '' [E e]
             (snd (call (LoadUrl p u) (loadUrl D p u) s)))))"

text \<open>
  What \<open>openInternal\<close> adds to the trace from retry index \<open>k\<close> on, and what it returns:
  the first \<open>n\<close> steps of the schedule, ending on a load when it returns normally and
  on a rejected backoff wait when it throws.
\<close>

definition navSpec ::
  "'w driver \<Rightarrow> handle \<Rightarrow> string \<Rightarrow> nat \<Rightarrow> 'w state \<Rightarrow> thrown option \<Rightarrow> event list \<Rightarrow> nat \<Rightarrow> bool" where
  "navSpec D p u k s r t n \<longleftrightarrow>
     1 \<le> n \<and> n \<le> length (scheduleFrom p u k) \<and>
     filter isNavStep t = take n (scheduleFrom p u k) \<and>
     loadStateWaits t = 0 \<and>
     (case r of
        None \<Rightarrow> odd n
      | Some e \<Rightarrow> even n \<and> (\<exists>ms w. fst (waitForTimeout D p ms w) = Some e)) \<and>
     ((\<forall>w. fst (loadUrl D p u w) \<noteq> None) \<and> (\<forall>ms w. fst (waitForTimeout D p ms w) = None) \<longrightarrow>
        n = length (scheduleFrom p u k) \<and> r = None)"

text \<open>The state right after the click of a scan on selector \<open>x\<close>.\<close>

definition clickState :: "'w driver \<Rightarrow> handle \<Rightarrow> string \<Rightarrow> 'w state \<Rightarrow> 'w state" where
  "clickState D p x s =
     snd (call (LocatorClick p x) (locatorClick D p x)
       (logger INFO ''Found consent button with selector: ${selector}'' [S x]
          (snd (call (LocatorCount p x) (locatorCount D p x) s))))"

text \<open>
  What a scan of the selectors \<open>sels\<close> on a page in world \<open>w\<close> adds to the trace and
  returns: it probes the first \<open>n\<close> selectors in order and clicks at most once, on the
  last one probed; it throws only what a \<open>count\<close> throws; after the click comes nothing
  but the line that logs its failure; and when counting does not change the world, the
  selector clicked is the first whose count is not zero.
\<close>

definition scanSpec ::
  "'w driver \<Rightarrow> handle \<Rightarrow> string list \<Rightarrow> 'w \<Rightarrow> thrown option \<Rightarrow> event list \<Rightarrow> nat \<Rightarrow> bool" where
  "scanSpec D p sels w r t n \<longleftrightarrow>
     n \<le> length sels \<and>
     filter isCount t = map (LocatorCount p) (take n sels) \<and>
     (filter isClick t = [] \<or>
      (1 \<le> n \<and> filter isClick t = [LocatorClick p (sels ! (n - 1))] \<and> r = None \<and>
       (\<exists>w'. (fst (locatorClick D p (sels ! (n - 1)) w') = None \<and>
               last t = LocatorClick p (sels ! (n - 1))) \<or>
              (\<exists>e. fst (locatorClick D p (sels ! (n - 1)) w') = Some e \<and>
                   last t = Log INFO ''Failed to click consent button: ${e.message}'' [E e])))) \<and>
     (\<forall>e. r = Some e \<longrightarrow> (\<exists>sel w'. fst (locatorCount D p sel w') = Inl e)) \<and>
     ((\<forall>sel w'. snd (locatorCount D p sel w') = w') \<longrightarrow>
        (case find (\<lambda>sel. fst (locatorCount D p sel w) \<noteq> Inr 0) sels of
           None \<Rightarrow> r = None \<and> filter isClick t = [] \<and> n = length sels
         | Some sel \<Rightarrow>
             (case fst (locatorCount D p sel w) of
                Inl e \<Rightarrow> r = Some e \<and> filter isClick t = []
              | Inr c \<Rightarrow> r = None \<and> filter isClick t = [LocatorClick p sel])))"

text \<open>
  What a run of \<open>safeLoop\<close> that starts with the counter at \<open>k\<close> and the last error
  \<open>le\<close> adds to the trace, and what it returns.
\<close>

definition loopSpec ::
  "int \<Rightarrow> int \<Rightarrow> thrown option \<Rightarrow> (thrown + 'a) \<Rightarrow> event list \<Rightarrow> bool" where
  "loopSpec m k le r t \<longleftrightarrow>
     int (invocations t) \<le> max 0 (m + 1 - k) \<and> loadStateWaits t = invocations t \<and>
     (case r of
        Inr v \<Rightarrow> int (length (failures t)) \<le> m - k \<and> retrySleeps t = length (failures t)
      | Inl e \<Rightarrow>
          int (length (failures t)) = max 0 (m + 1 - k) \<and>
          retrySleeps t = length (failures t) - 1 \<and>
          e = (if failures t = []
               then (case le of Some x \<Rightarrow> x | None \<Rightarrow> ErrorObj ''Operation failed after retries'')
               else toError (last (failures t))))"

text \<open>
  The closes a reset that handled each level on its own would issue: one for the page
  when it is open, one for the context, one for the browser, whatever the others do.
\<close>

definition closesOfEveryLevel :: "'w driver \<Rightarrow> 'w state \<Rightarrow> event list" where
  "closesOfEveryLevel D s =
     (case page (store s) of
        Some p \<Rightarrow> if \<not> isClosed D p (env s) then [ClosePage p] else []
      | None \<Rightarrow> [])
     @ (case bcontext (store s) of Some c \<Rightarrow> [CloseContext c] | None \<Rightarrow> [])
     @ (case browser (store s) of Some b \<Rightarrow> [CloseBrowser b] | None \<Rightarrow> [])"

text \<open>A driver whose load-state waits act on the world as before but never reject.\<close>

definition withoutLoadStateFailures :: "'w driver \<Rightarrow> 'w driver" where
  "withoutLoadStateFailures D =
     D\<lparr>waitForLoadState := (\<lambda>p t w. (None, snd (waitForLoadState D p t w)))\<rparr>"

text \<open>What a run leaves behind, the warnings of the load-state wait apart.\<close>

definition observable ::
  "((thrown + 'a) \<times> 'w state) option
     \<Rightarrow> ((thrown + 'a) \<times> BrowserManager \<times> 'w \<times> event list) option" where
  "observable x =
     map_option (\<lambda>(r, u). (r, store u, env u, filter (\<lambda>ev. \<not> isLoadStateWarning ev) (trace u))) x"

text \<open>Two runs that return the same and end in states that differ in the warnings only.\<close>

definition agree :: "('a \<times> 'w state) option \<Rightarrow> ('a \<times> 'w state) option \<Rightarrow> bool" where
  "agree x' x = rel_option (\<lambda>a' a. fst a' = fst a \<and> sameButWarnings (snd a') (snd a)) x' x"

section \<open>Test fixtures\<close>

text \<open>
  A small browser: handles are numbered in the order they are created, no page is ever
  closed and every call succeeds, except that an element must be there to be read and
  must be visible and enabled to be clicked. \<open>dom\<close> gives the elements each selector
  matches, in document order. \<open>calls\<close> counts the invocations of a stub operation.
\<close>

record element =
  visible :: bool
  enabled :: bool
  textContent :: "jsstring option"

record tenv =
  fresh :: nat
  calls :: nat
  dom :: "string \<Rightarrow> element list"

definition actionable :: "element \<Rightarrow> bool" where
  "actionable el \<longleftrightarrow> visible el \<and> enabled el"

text \<open>
  The selector the specification's words pick on a page: the first of the list that
  has a matching, visible, clickable element.
\<close>

definition firstActionableSelector :: "(string \<Rightarrow> element list) \<Rightarrow> string list \<Rightarrow> string option" where
  "firstActionableSelector d sels = find (\<lambda>sel. list_ex actionable (d sel)) sels"

definition okDriver :: "tenv driver" where
  "okDriver =
     \<lparr>launch = (\<lambda>w. (Inr (fresh w), w\<lparr>fresh := fresh w + 1\<rparr>)),
      newContext = (\<lambda>b w. (Inr (fresh w), w\<lparr>fresh := fresh w + 1\<rparr>)),
      newPage = (\<lambda>c w. (Inr (fresh w), w\<lparr>fresh := fresh w + 1\<rparr>)),
      isClosed = (\<lambda>p w. False),
      isConnected = (\<lambda>b w. True),
      closePage = (\<lambda>p w. (None, w)),
      closeContext = (\<lambda>c w. (None, w)),
      closeBrowser = (\<lambda>b w. (None, w)),
      waitForLoadState = (\<lambda>p t w. (None, w)),
      loadUrl = (\<lambda>p u w. (None, w)),
      waitForTimeout = (\<lambda>p t w. (None, w)),
      locatorCount = (\<lambda>p sel w. (Inr (min 1 (length (dom w sel))), w)),
      locatorClick = (\<lambda>p sel w.
        (case dom w sel of
           [] \<Rightarrow> Some (ErrorObj ''Timeout 30000ms exceeded'')
         | el # els \<Rightarrow> if actionable el then None
                       else Some (ErrorObj ''Timeout 30000ms exceeded''), w)),
      waitForSelector = (\<lambda>p sel t w.
        (if dom w sel = [] then Some (ErrorObj ''Timeout exceeded'') else None, w)),
      evalTextContent = (\<lambda>p sel w.
        (case dom w sel of
           [] \<Rightarrow> Inl (ErrorObj ''failed to find element matching selector'')
         | el # els \<Rightarrow> Inr (textContent el), w))\<rparr>"

definition tenv0 :: tenv where
  "tenv0 = \<lparr>fresh = 0, calls = 0, dom = (\<lambda>sel. [])\<rparr>"

text \<open>The store after a first launch in that browser: browser 0, context 1, page 2.\<close>

definition readyState :: "tenv state" where
  "readyState =
     \<lparr>store = \<lparr>browser = Some 0, bcontext = Some 1, page = Some 2, isInitializing = False\<rparr>,
      trace = [],
      env = \<lparr>fresh = 3, calls = 0, dom = (\<lambda>sel. [])\<rparr>\<rparr>"

text \<open>The same browser, but closing a page (or a context) is rejected.\<close>

definition pageCloseFails :: "tenv driver" where
  "pageCloseFails = okDriver\<lparr>closePage := (\<lambda>p w. (Some (ErrorObj ''page crashed''), w))\<rparr>"

definition contextCloseFails :: "tenv driver" where
  "contextCloseFails =
     okDriver\<lparr>closeContext := (\<lambda>c w. (Some (ErrorObj ''context gone''), w))\<rparr>"

text \<open>The same browser, but no page ever reaches \<open>domcontentloaded\<close>.\<close>

definition loadStateNeverReached :: "tenv driver" where
  "loadStateNeverReached =
     okDriver\<lparr>waitForLoadState := (\<lambda>p t w. (Some (ErrorObj ''Timeout exceeded''), w))\<rparr>"

text \<open>
  A page with one heading whose text is wrapped in white space of several kinds: a byte
  order mark and a space before, a no-break space and a line feed after.
\<close>

definition headingState :: "tenv state" where
  "headingState =
     readyState\<lparr>env := (env readyState)\<lparr>dom := (\<lambda>sel.
       if sel = ''h1''
       then [\<lparr>visible = True, enabled = True,
              textContent = Some ([0xFEFF, 0x20] @ js ''Hello world'' @ [0xA0, 0xA])\<rparr>]
       else [])\<rparr>\<rparr>"

text \<open>
  A page with an element whose \<open>textContent\<close> is \<open>null\<close> and one whose text is a space, a
  tab and a no-break space.
\<close>

definition blankTextState :: "tenv state" where
  "blankTextState =
     readyState\<lparr>env := (env readyState)\<lparr>dom := (\<lambda>sel.
       if sel = ''#empty''
       then [\<lparr>visible = True, enabled = True, textContent = None\<rparr>]
       else if sel = ''#blank''
       then [\<lparr>visible = True, enabled = True, textContent = Some [0x20, 0x9, 0xA0]\<rparr>]
       else [])\<rparr>\<rparr>"

text \<open>The same browser, but no URL ever loads; and one where, besides, no page settles.\<close>

definition loadAlwaysFails :: "tenv driver" where
  "loadAlwaysFails = okDriver\<lparr>loadUrl := (\<lambda>p u w. (Some (ErrorObj ''net::ERR_FAILED''), w))\<rparr>"

definition nothingLoads :: "tenv driver" where
  "nothingLoads =
     loadAlwaysFails\<lparr>waitForLoadState := (\<lambda>p t w. (Some (ErrorObj ''Timeout exceeded''), w))\<rparr>"

text \<open>
  Two context objects a tool function can be handed: one that carries the handles of
  \<open>readyState\<close>, one that carries no browser.
\<close>

definition sessionContext :: ToolContext where
  "sessionContext = \<lparr>tc_page = 2, tc_browser = Some 0, tc_context = Some 1\<rparr>"

definition noBrowserContext :: ToolContext where
  "noBrowserContext = \<lparr>tc_page = 2, tc_browser = None, tc_context = None\<rparr>"

text \<open>An error with which the tool framework rejects an invocation.\<close>

definition schemaError :: thrown where
  "schemaError = ErrorObj ''Received tool input did not match expected schema''"

text \<open>
  A page with two consent buttons: one that carries an \<open>aria-label\<close> but is hidden,
  and a visible one with the text \<open>Accept\<close>.
\<close>

definition consentState :: "tenv state" where
  \<open>consentState =
     readyState\<lparr>env := (env readyState)\<lparr>dom := (\<lambda>sel.
       if sel = ''button[aria-label*="Accept"]''
       then [\<lparr>visible = False, enabled = True, textContent = Some (js ''Accept'')\<rparr>]
       else if sel = ''button:has-text("Accept")''
       then [\<lparr>visible = True, enabled = True, textContent = Some (js ''Accept'')\<rparr>]
       else [])\<rparr>\<rparr>\<close>

text \<open>A page whose only consent button sits in a \<open>#consent\<close> banner.\<close>

definition bannerState :: "tenv state" where
  "bannerState =
     readyState\<lparr>env := (env readyState)\<lparr>dom := (\<lambda>sel.
       if sel = ''#consent button''
       then [\<lparr>visible = True, enabled = True, textContent = Some (js ''OK'')\<rparr>]
       else [])\<rparr>\<rparr>"

text \<open>Errors that can be told apart: the \<open>k\<close>-th carries \<open>k\<close> strokes.\<close>

definition numbered :: "nat \<Rightarrow> thrown" where
  "numbered k = ErrorObj (''failure '' @ replicate k (CHR ''I''))"

text \<open>
  The stub of the executor's test: its first \<open>n\<close> invocations throw, the \<open>k\<close>-th of
  them \<open>errs k\<close>; every later invocation returns the number of invocations before it.
\<close>

definition failsThenSucceeds :: "(nat \<Rightarrow> thrown) \<Rightarrow> nat \<Rightarrow> (tenv, nat) operation" where
  "failsThenSucceeds errs n p w =
     (if calls w < n then Inl (errs (calls w + 1)) else Inr (calls w),
      w\<lparr>calls := calls w + 1\<rparr>)"

section \<open>Basic facts about the steps\<close>

lemmas step_defs = emit_def logger_def call_def thenE_def
lemmas reset_defs = reset_def reset_try_def reset_page_def reset_context_def reset_browser_def reset_finally_def

lemma emit_simps [simp]: "store (emit e s) = store s" "env (emit e s) = env s" "trace (emit e s) = trace s @ [e]"
  by (simp_all add: emit_def)

lemma logger_simps [simp]: "store (logger l m a s) = store s" "env (logger l m a s) = env s"
  "trace (logger l m a s) = trace s @ [Log l m a]"
  by (simp_all add: logger_def)

lemma call_simps [simp]:
  "fst (call e f s) = fst (f (env s))"
  "store (snd (call e f s)) = store s"
  "env (snd (call e f s)) = snd (f (env s))"
  "trace (snd (call e f s)) = trace s @ [e]"
  by (simp_all add: call_def split: prod.splits)

lemma reset_finally_simps [simp]:
  "store (reset_finally s) = (store s)\<lparr>page := None, bcontext := None, browser := None\<rparr>"
  "env (reset_finally s) = env s"
  "trace (reset_finally s) = trace s @ [Log INFO ''Browser state reset'' []]"
  by (simp_all add: reset_finally_def)

lemma store_reset_page [simp]: "store (snd (reset_page D s)) = store s"
  by (simp add: reset_page_def split: option.splits)

lemma store_reset_context [simp]: "store (snd (reset_context D s)) = store s"
  by (simp add: reset_context_def split: option.splits)

lemma store_reset_browser [simp]: "store (snd (reset_browser D s)) = store s"
  by (simp add: reset_browser_def split: option.splits)

lemma store_thenE: "(\<And>s. store (snd (f s)) = store s) \<Longrightarrow> store (snd (thenE r f)) = store (snd r)"
  by (cases r) (simp add: thenE_def split: option.splits)

lemma store_reset_try [simp]: "store (snd (reset_try D s)) = store s"
  by (simp add: reset_try_def store_thenE)

lemma reset_cases:
  "reset D s = (case fst (reset_try D s) of
       Some e \<Rightarrow> reset_finally (logger ERROR ''Error resetting browser state'' [E e] (snd (reset_try D s)))
     | None \<Rightarrow> reset_finally (snd (reset_try D s)))"
  by (cases "reset_try D s") (simp add: reset_def split: option.splits)

lemma reset_store:
  "store (reset D s) = \<lparr>browser = None, bcontext = None, page = None, isInitializing = isInitializing (store s)\<rparr>"
  by (simp add: reset_cases split: option.splits)

lemma thenE_fst_None: "fst r = None \<Longrightarrow> thenE r f = f (snd r)"
  by (cases r) (simp add: thenE_def)

lemma thenE_fst_Some: "fst r = Some e \<Longrightarrow> thenE r f = r"
  by (cases r) (simp add: thenE_def)

lemma reset_page_fails:
  assumes "page (store s) = Some p" "\<not> isClosed D p (env s)" "fst (closePage D p (env s)) = Some e"
  shows "trace (reset D s) = trace s @ [ClosePage p, Log ERROR ''Error resetting browser state'' [E e], Log INFO ''Browser state reset'' []]"
proof -
  have "fst (reset_page D s) = Some e" "trace (snd (reset_page D s)) = trace s @ [ClosePage p]"
    using assms by (simp_all add: reset_page_def)
  then show ?thesis
    by (simp add: reset_cases reset_try_def thenE_fst_Some)
qed

lemma reset_context_fails:
  assumes "fst (reset_page D s) = None" "bcontext (store s) = Some c"
    "fst (closeContext D c (env (snd (reset_page D s)))) = Some e"
  shows "trace (reset D s) = trace (snd (reset_page D s)) @ [CloseContext c, Log ERROR ''Error resetting browser state'' [E e], Log INFO ''Browser state reset'' []]"
proof -
  let ?s1 = "snd (reset_page D s)"
  have "fst (reset_context D ?s1) = Some e" "trace (snd (reset_context D ?s1)) = trace ?s1 @ [CloseContext c]"
    using assms by (simp_all add: reset_context_def)
  then show ?thesis using assms(1)
    by (simp add: reset_cases reset_try_def thenE_fst_Some thenE_fst_None)
qed

lemma reset_trace_shape:
  "\<exists>issued. prefix issued (closesOfEveryLevel D s) \<and>
     trace (reset D s) = trace s @ issued @
        (case fst (reset_try D s) of Some e \<Rightarrow> [Log ERROR ''Error resetting browser state'' [E e]] | None \<Rightarrow> [])
        @ [Log INFO ''Browser state reset'' []] \<and>
     (fst (reset_try D s) = None \<longrightarrow> issued = closesOfEveryLevel D s) \<and>
     (fst (reset_try D s) \<noteq> None \<longrightarrow> issued \<noteq> [])"
proof -
  let ?s1 = "snd (reset_page D s)"
  let ?s2 = "snd (reset_context D ?s1)"
  let ?P = "(case page (store s) of Some p \<Rightarrow> if \<not> isClosed D p (env s) then [ClosePage p] else [] | None \<Rightarrow> [])"
  let ?C = "(case bcontext (store s) of Some c \<Rightarrow> [CloseContext c] | None \<Rightarrow> [])"
  let ?B = "(case browser (store s) of Some b \<Rightarrow> [CloseBrowser b] | None \<Rightarrow> [])"
  have tp: "trace ?s1 = trace s @ ?P" and fp: "fst (reset_page D s) \<noteq> None \<Longrightarrow> ?P \<noteq> []"
    by (auto simp: reset_page_def split: option.splits if_splits)
  have tc: "\<And>u. store u = store s \<Longrightarrow> trace (snd (reset_context D u)) = trace u @ ?C"
    and fc: "\<And>u. store u = store s \<Longrightarrow> fst (reset_context D u) \<noteq> None \<Longrightarrow> ?C \<noteq> []"
    by (simp_all add: reset_context_def split: option.splits)
  have tb: "\<And>u. store u = store s \<Longrightarrow> trace (snd (reset_browser D u)) = trace u @ ?B"
    and fb: "\<And>u. store u = store s \<Longrightarrow> fst (reset_browser D u) \<noteq> None \<Longrightarrow> ?B \<noteq> []"
    by (simp_all add: reset_browser_def split: option.splits)
  have all: "closesOfEveryLevel D s = ?P @ ?C @ ?B" by (simp add: closesOfEveryLevel_def)
  show ?thesis
  proof (cases "fst (reset_page D s)")
    case (Some e)
    then have "reset_try D s = reset_page D s" by (simp add: reset_try_def thenE_fst_Some)
    with Some tp fp show ?thesis
      by (intro exI [of _ ?P]) (simp add: reset_cases all)
  next
    case None
    note pNone = None
    show ?thesis
    proof (cases "fst (reset_context D ?s1)")
      case (Some e)
      then have "reset_try D s = reset_context D ?s1"
        using pNone by (simp add: reset_try_def thenE_fst_Some thenE_fst_None)
      with Some tp tc [of ?s1] fc [of ?s1] show ?thesis
        by (intro exI [of _ "?P @ ?C"]) (simp add: reset_cases all)
    next
      case None
      then have rt: "reset_try D s = reset_browser D ?s2"
        using pNone by (simp add: reset_try_def thenE_fst_None)
      have t2: "trace (snd (reset_browser D ?s2)) = trace s @ ?P @ ?C @ ?B"
        using tp tc [of ?s1] tb [of ?s2] by simp
      show ?thesis
      proof (cases "fst (reset_browser D ?s2)")
        case None
        with rt t2 show ?thesis
          by (intro exI [of _ "?P @ ?C @ ?B"]) (simp add: reset_cases all)
      next
        case (Some e)
        with rt t2 fb [of ?s2] show ?thesis
          by (intro exI [of _ "?P @ ?C @ ?B"]) (simp add: reset_cases all)
      qed
    qed
  qed
qed

section \<open>Claims about \<open>reset\<close>\<close>

text \<open>
  C3, as the code has it. \<open>reset\<close> never throws and always clears the three handles,
  but its three closes share one \<open>try\<close> block: the closes are issued in the order page,
  context, browser and stop at the first one that fails, which is the only failure
  logged. A failure while closing the page leaves the context and the browser
  unclosed; a failure while closing the context leaves the browser unclosed. When no
  close fails, every level is closed.
\<close>

theorem reset_stops_at_first_close_failure:
  "store (reset D s) =
     \<lparr>browser = None, bcontext = None, page = None, isInitializing = isInitializing (store s)\<rparr>
   \<and> (\<exists>issued. prefix issued (closesOfEveryLevel D s) \<and>
        trace (reset D s) = trace s @ issued @
          (case fst (reset_try D s) of
             Some e \<Rightarrow> [Log ERROR ''Error resetting browser state'' [E e]]
           | None \<Rightarrow> [])
          @ [Log INFO ''Browser state reset'' []] \<and>
        (fst (reset_try D s) = None \<longrightarrow> issued = closesOfEveryLevel D s) \<and>
        (fst (reset_try D s) \<noteq> None \<longrightarrow> issued \<noteq> []))
   \<and> (\<forall>p e. page (store s) = Some p \<and> \<not> isClosed D p (env s) \<and>
          fst (closePage D p (env s)) = Some e \<longrightarrow>
        trace (reset D s) =
          trace s @ [ClosePage p, Log ERROR ''Error resetting browser state'' [E e],
                     Log INFO ''Browser state reset'' []])
   \<and> (\<forall>c e. fst (reset_page D s) = None \<and> bcontext (store s) = Some c \<and>
          fst (closeContext D c (env (snd (reset_page D s)))) = Some e \<longrightarrow>
        trace (reset D s) =
          trace (snd (reset_page D s)) @
            [CloseContext c, Log ERROR ''Error resetting browser state'' [E e],
             Log INFO ''Browser state reset'' []])"
  using reset_store [of D s] reset_trace_shape [of D s]
    reset_page_fails [of s _ D] reset_context_fails [of D s]
  by blast

text \<open>
  The claim as written fails: when closing the page is rejected, neither the context
  close nor the browser close is attempted.
\<close>

theorem reset_page_failure_skips_context_close:
  "bcontext (store readyState) = Some 1 \<and> browser (store readyState) = Some 0 \<and>
   trace (reset pageCloseFails readyState) =
     [ClosePage 2, Log ERROR ''Error resetting browser state'' [E (ErrorObj ''page crashed'')],
      Log INFO ''Browser state reset'' []] \<and>
   CloseContext 1 \<notin> set (trace (reset pageCloseFails readyState)) \<and>
   CloseBrowser 0 \<notin> set (trace (reset pageCloseFails readyState))"
  by (simp add: reset_defs step_defs pageCloseFails_def okDriver_def readyState_def)

theorem reset_stops_at_first_close_failure_witness:
  "trace (reset contextCloseFails readyState) =
     [ClosePage 2, CloseContext 1,
      Log ERROR ''Error resetting browser state'' [E (ErrorObj ''context gone'')],
      Log INFO ''Browser state reset'' []] \<and>
   store (reset contextCloseFails readyState) = emptyStore"
proof -
  let ?D = contextCloseFails
  have h: "fst (reset_page ?D readyState) = None \<and> bcontext (store readyState) = Some 1 \<and>
      fst (closeContext ?D 1 (env (snd (reset_page ?D readyState)))) = Some (ErrorObj ''context gone'')"
    by (simp add: reset_page_def contextCloseFails_def okDriver_def readyState_def)
  have t: "trace (snd (reset_page ?D readyState)) = [ClosePage 2]"
    by (simp add: reset_page_def contextCloseFails_def okDriver_def readyState_def)
  from reset_stops_at_first_close_failure [of ?D readyState] h
  have "trace (reset ?D readyState) =
          trace (snd (reset_page ?D readyState)) @
            [CloseContext 1, Log ERROR ''Error resetting browser state'' [E (ErrorObj ''context gone'')],
             Log INFO ''Browser state reset'' []]"
    by blast
  moreover from reset_stops_at_first_close_failure [of ?D readyState]
  have "store (reset ?D readyState) = emptyStore"
    by (simp add: emptyStore_def readyState_def)
  ultimately show ?thesis using t by simp
qed

section \<open>Claims about \<open>getBrowser\<close>\<close>

lemma waitInit_returns:
  assumes "waitInit s = Some s'"
  shows "s' = s \<and> \<not> isInitializing (store s)"
proof (rule waitInit.raw_induct [where P = "\<lambda>s s'. s' = s \<and> \<not> isInitializing (store s)", OF _ assms])
  fix f :: "'a state \<Rightarrow> 'a state option" and s y
  assume IH: "\<And>s y. f s = Some y \<Longrightarrow> y = s \<and> \<not> isInitializing (store s)"
    and eq: "(if isInitializing (store s) then f (emit (Sleep 100) s) else Some s) = Some y"
  show "y = s \<and> \<not> isInitializing (store s)"
  proof (cases "isInitializing (store s)")
    case True
    with eq have "f (emit (Sleep 100) s) = Some y" by simp
    from IH [OF this] True show ?thesis by simp
  next
    case False
    with eq show ?thesis by simp
  qed
qed

lemma waitInit_idle: "\<not> isInitializing (store s) \<Longrightarrow> waitInit s = Some s"
  by (subst waitInit.simps) simp

lemma waitInit_eq: "waitInit s = (if isInitializing (store s) then None else Some s)"
proof (cases "isInitializing (store s)")
  case True
  then have "waitInit s = None"
    using waitInit_returns [of s] by (cases "waitInit s") auto
  with True show ?thesis by simp
next
  case False
  then show ?thesis by (simp add: waitInit_idle)
qed

lemma setInitializing_simps [simp]:
  "store (setInitializing v s) = (store s)\<lparr>isInitializing := v\<rparr>"
  "env (setInitializing v s) = env s"
  "trace (setInitializing v s) = trace s"
  by (simp_all add: setInitializing_def)

lemma getBrowser_eq:
  "getBrowser D s =
     (case available D s of
        Some r \<Rightarrow> Some (Inr r, logger INFO ''Reusing existing browser instance'' [] s)
      | None \<Rightarrow> if isInitializing (store s) then None else Some (initialize D s))"
  by (simp add: getBrowser_def waitInit_eq split: option.splits)

lemma initialize_flag [simp]: "isInitializing (store (snd (initialize D s))) = False"
  by (cases "launchBrowser D (setInitializing True s)")
     (simp add: initialize_def split: sum.splits)

lemma initialize_flag': "initialize D s = (r, s') \<Longrightarrow> \<not> isInitializing (store s')"
  using initialize_flag [of D s] by simp

lemma getBrowser_flag:
  "getBrowser D s = Some (r, s') \<Longrightarrow> \<not> isInitializing (store s) \<Longrightarrow> \<not> isInitializing (store s')"
  by (auto simp: getBrowser_eq split: option.splits if_splits dest: initialize_flag')

lemma getBrowser_total:
  "\<not> isInitializing (store s) \<Longrightarrow> \<exists>r s'. getBrowser D s = Some (r, s')"
  by (cases "initialize D s") (simp add: getBrowser_eq split: option.splits)

lemma reset_flag [simp]: "isInitializing (store (reset D s)) = isInitializing (store s)"
  by (simp add: reset_store)

lemma run_total_flag:
  "\<not> isInitializing (store s0) \<Longrightarrow>
     \<exists>s. run D ops s0 = Some s \<and> \<not> isInitializing (store s)"
proof (induction ops arbitrary: s0)
  case Nil
  then show ?case by simp
next
  case (Cons a ops)
  show ?case
  proof (cases a)
    case Reset
    with Cons.IH [of "reset D s0"] Cons.prems show ?thesis by simp
  next
    case GetBrowser
    from getBrowser_total [OF Cons.prems, of D] obtain r s1
      where g: "getBrowser D s0 = Some (r, s1)" by blast
    from getBrowser_flag [OF g Cons.prems] Cons.IH [of s1] g GetBrowser
    show ?thesis by simp
  next
    case (World f)
    with Cons.IH [of "s0\<lparr>env := f (env s0)\<rparr>"] Cons.prems show ?thesis by simp
  qed
qed

lemma call_eq: "call e f s = (fst (f (env s)), (emit e s)\<lparr>env := snd (f (env s))\<rparr>)"
  by (simp add: call_def split: prod.splits)

lemma launchBrowser_starts:
  "\<exists>t. trace (snd (launchBrowser D s)) =
        trace s @ Log INFO ''Launching new browser instance...'' [] # Launch # t"
  by (simp add: launchBrowser_def Let_def call_eq split: sum.splits)

lemma launchBrowser_result:
  "fst (launchBrowser D s) = Inr (b, p) \<Longrightarrow>
     fst (launch D (env s)) = Inr b \<and> browser (store (snd (launchBrowser D s))) = Some b \<and>
     page (store (snd (launchBrowser D s))) = Some p \<and>
     (\<exists>c. fst (newContext D b (snd (launch D (env s)))) = Inr c \<and>
          fst (newPage D c (snd (newContext D b (snd (launch D (env s)))))) = Inr p)"
  by (auto simp: launchBrowser_def Let_def call_eq split: sum.splits)

lemma initialize_starts:
  "\<exists>t. trace (snd (initialize D s)) =
        trace s @ Log INFO ''Launching new browser instance...'' [] # Launch # t"
proof -
  from launchBrowser_starts [of D "setInitializing True s"] obtain t where
    t: "trace (snd (launchBrowser D (setInitializing True s))) =
        trace s @ Log INFO ''Launching new browser instance...'' [] # Launch # t" by auto
  show ?thesis
    by (cases "launchBrowser D (setInitializing True s)")
       (use t in \<open>auto simp: initialize_def split: sum.splits\<close>)
qed

lemma initialize_result:
  assumes "fst (initialize D s) = Inr (b, p)"
  shows "fst (launch D (env s)) = Inr b \<and> browser (store (snd (initialize D s))) = Some b \<and>
     page (store (snd (initialize D s))) = Some p \<and>
     (\<exists>c. fst (newContext D b (snd (launch D (env s)))) = Inr c \<and>
          fst (newPage D c (snd (newContext D b (snd (launch D (env s)))))) = Inr p)"
proof -
  obtain r u where l: "launchBrowser D (setInitializing True s) = (r, u)"
    by (cases "launchBrowser D (setInitializing True s)")
  with assms have r: "r = Inr (b, p)" and i: "initialize D s = (Inr (b, p), setInitializing False u)"
    by (auto simp: initialize_def split: sum.splits)
  from launchBrowser_result [of D "setInitializing True s" b p] l r
  show ?thesis by (simp add: i)
qed

text \<open>
  C8. After any history of the Session Store on one timeline (which never hangs),
  \<open>reset\<close> leaves the store with no browser, no context and no page and the flag
  down; the next \<open>getBrowser\<close> takes neither the reuse branch nor the polling branch
  but launches: it logs the launch, calls the driver's \<open>launch\<close>, and when it returns
  a session, the browser and the page are the ones the driver created in this very
  call, and they are what the store holds afterwards.
\<close>

theorem getBrowser_after_reset_launches:
  "(\<exists>s. run D ops (initial w) = Some s) \<and>
   (\<forall>s. run D ops (initial w) = Some s \<longrightarrow>
      store (reset D s) = emptyStore \<and>
      getBrowser D (reset D s) = Some (initialize D (reset D s)) \<and>
      (\<exists>t. trace (snd (initialize D (reset D s))) =
            trace (reset D s) @ Log INFO ''Launching new browser instance...'' [] # Launch # t) \<and>
      (\<forall>b p. fst (initialize D (reset D s)) = Inr (b, p) \<longrightarrow>
         fst (launch D (env (reset D s))) = Inr b \<and>
         (\<exists>c. fst (newContext D b (snd (launch D (env (reset D s))))) = Inr c \<and>
              fst (newPage D c (snd (newContext D b (snd (launch D (env (reset D s))))))) = Inr p) \<and>
         browser (store (snd (initialize D (reset D s)))) = Some b \<and>
         page (store (snd (initialize D (reset D s)))) = Some p))"
proof -
  have i: "\<not> isInitializing (store (initial w))"
    by (simp add: initial_def emptyStore_def)
  from run_total_flag [OF i, of D ops] obtain s0
    where s0: "run D ops (initial w) = Some s0" "\<not> isInitializing (store s0)" by blast
  have e: "store (reset D s0) = emptyStore"
    using s0(2) by (simp add: reset_store emptyStore_def)
  then have g: "getBrowser D (reset D s0) = Some (initialize D (reset D s0))"
    by (simp add: getBrowser_eq available_def emptyStore_def)
  from s0(1) e g initialize_starts [of D "reset D s0"] initialize_result [of D "reset D s0"]
  show ?thesis by auto
qed

theorem getBrowser_after_reset_launches_witness:
  "\<exists>s. run okDriver [GetBrowser] (initial tenv0) = Some s \<and>
       browser (store s) = Some 0 \<and> page (store s) = Some 2 \<and>
       store (reset okDriver s) = emptyStore \<and>
       map_option fst (getBrowser okDriver (reset okDriver s)) = Some (Inr (3, 5))"
proof -
  from getBrowser_after_reset_launches [of okDriver "[GetBrowser]" tenv0]
  obtain s where s: "run okDriver [GetBrowser] (initial tenv0) = Some s"
    and e: "store (reset okDriver s) = emptyStore"
    and g: "getBrowser okDriver (reset okDriver s) = Some (initialize okDriver (reset okDriver s))"
    by blast
  have r: "run okDriver [GetBrowser] (initial tenv0) =
      Some \<lparr>store = \<lparr>browser = Some 0, bcontext = Some 1, page = Some 2, isInitializing = False\<rparr>,
            trace = [Log INFO ''Launching new browser instance...'' [], Launch, NewContext 0,
                     NewPage 1, Log INFO ''Browser launched successfully'' []],
            env = \<lparr>fresh = 3, calls = 0, dom = (\<lambda>sel. [])\<rparr>\<rparr>"
    by (simp add: getBrowser_eq available_def initialize_def launchBrowser_def call_eq Let_def
        setInitializing_def emit_def logger_def okDriver_def initial_def emptyStore_def tenv0_def)
  with s have sv: "s = \<lparr>store = \<lparr>browser = Some 0, bcontext = Some 1, page = Some 2, isInitializing = False\<rparr>,
            trace = [Log INFO ''Launching new browser instance...'' [], Launch, NewContext 0,
                     NewPage 1, Log INFO ''Browser launched successfully'' []],
            env = \<lparr>fresh = 3, calls = 0, dom = (\<lambda>sel. [])\<rparr>\<rparr>" by simp
  have f: "fst (initialize okDriver (reset okDriver s)) = Inr (3, 5)"
    unfolding sv
    by (simp add: reset_defs step_defs initialize_def launchBrowser_def Let_def
        setInitializing_def okDriver_def)
  have b: "browser (store s) = Some 0" "page (store s) = Some 2"
    by (simp_all add: sv)
  have m: "map_option fst (getBrowser okDriver (reset okDriver s)) = Some (Inr (3, 5))"
    by (simp add: g f)
  from s b e m show ?thesis by blast
qed

section \<open>Claims about the Action Executor\<close>

lemma failures_simps [simp]:
  "failures [] = []"
  "failures (t @ u) = failures t @ failures u"
  "failures (ev # t) = (case failureOf ev of None \<Rightarrow> failures t | Some e \<Rightarrow> e # failures t)"
  by (simp_all add: failures_def List.map_filter_def split: option.splits)

lemma invocations_simps [simp]:
  "invocations [] = 0"
  "invocations (t @ u) = invocations t + invocations u"
  "invocations (ev # t) = (if isInvoke ev then 1 else 0) + invocations t"
  by (simp_all add: invocations_def)

lemma loadStateWaits_simps [simp]:
  "loadStateWaits [] = 0"
  "loadStateWaits (t @ u) = loadStateWaits t + loadStateWaits u"
  "loadStateWaits (ev # t) = (if isLoadStateWait ev then 1 else 0) + loadStateWaits t"
  by (simp_all add: loadStateWaits_def)

lemma retrySleeps_simps [simp]:
  "retrySleeps [] = 0"
  "retrySleeps (t @ u) = retrySleeps t + retrySleeps u"
  "retrySleeps (ev # t) = (if ev = Sleep 1000 then 1 else 0) + retrySleeps t"
  by (simp_all add: retrySleeps_def)

lemma quiet_list:
  "list_all quiet t \<Longrightarrow>
     failures t = [] \<and> invocations t = 0 \<and> loadStateWaits t = 0 \<and> retrySleeps t = 0"
  by (induction t) (simp_all add: quiet_def)

lemma launchBrowser_quiet:
  "\<exists>t. trace (snd (launchBrowser D s)) = trace s @ t \<and> list_all quiet t"
  by (simp add: launchBrowser_def Let_def call_eq quiet_def isInvoke_def isLoadStateWait_def
      isLoadStateWarning_def split: sum.splits)

lemma initialize_quiet:
  "\<exists>t. trace (snd (initialize D s)) = trace s @ t \<and> list_all quiet t"
proof -
  from launchBrowser_quiet [of D "setInitializing True s"] obtain t where
    t: "trace (snd (launchBrowser D (setInitializing True s))) = trace s @ t" "list_all quiet t"
    by auto
  show ?thesis
  proof (cases "launchBrowser D (setInitializing True s)")
    case (Pair r u)
    show ?thesis
    proof (cases r)
      case (Inl e)
      with Pair t show ?thesis
        by (intro exI [of _ "t @ [Log ERROR ''Failed to initialize browser'' [E e]]"])
           (simp add: initialize_def quiet_def isInvoke_def isLoadStateWait_def
              isLoadStateWarning_def)
    next
      case (Inr v)
      with Pair t show ?thesis
        by (intro exI [of _ t]) (simp add: initialize_def)
    qed
  qed
qed

lemma getBrowser_quiet:
  assumes "getBrowser D s = Some (r, s')"
  shows "\<exists>t. trace s' = trace s @ t \<and> list_all quiet t"
proof (cases "available D s")
  case None
  with assms have "initialize D s = (r, s')"
    by (simp add: getBrowser_eq split: if_splits)
  with initialize_quiet [of D s] show ?thesis by simp
next
  case (Some v)
  with assms have "s' = logger INFO ''Reusing existing browser instance'' [] s"
    by (simp add: getBrowser_eq)
  then show ?thesis
    by (simp add: quiet_def isInvoke_def isLoadStateWait_def isLoadStateWarning_def)
qed

lemma afterFailure_simps [simp]:
  "store (afterFailure m k e s) = store s"
  "env (afterFailure m k e s) = env s"
  "trace (afterFailure m k e s) =
     trace s @ Log ERROR ''Browser operation failed:'' [E e] #
       (if k + 1 \<le> m
        then [Log INFO ''Retrying operation (${retries}/${maxRetries})...'' [N (k + 1), N m],
              Sleep 1000]
        else [])"
  by (simp_all add: afterFailure_def Let_def)

lemma safeLoop_done:
  "\<not> k \<le> m \<Longrightarrow> safeLoop D operation m k le s =
     Some (Inl (case le of Some e \<Rightarrow> e | None \<Rightarrow> ErrorObj ''Operation failed after retries''), s)"
  by (subst safeLoop.simps) simp

lemma safeLoop_hang:
  "k \<le> m \<Longrightarrow> attempt D operation s = None \<Longrightarrow> safeLoop D operation m k le s = None"
  by (subst safeLoop.simps) simp

lemma safeLoop_ok:
  "k \<le> m \<Longrightarrow> attempt D operation s = Some (Inr v, s1) \<Longrightarrow>
     safeLoop D operation m k le s = Some (Inr v, s1)"
  by (subst safeLoop.simps) simp

lemma safeLoop_retry:
  "k \<le> m \<Longrightarrow> attempt D operation s = Some (Inl e, s1) \<Longrightarrow>
     safeLoop D operation m k le s =
       safeLoop D operation m (k + 1) (Some (toError e)) (afterFailure m k e s1)"
  by (subst safeLoop.simps) simp

text \<open>One attempt, read off the trace.\<close>

lemma ensureBrowser_quiet:
  assumes "ensureBrowser D s = Some (r, s')"
  shows "\<exists>t. trace s' = trace s @ t \<and> list_all quiet t"
proof -
  from assms obtain r0 where "getBrowser D s = Some (r0, s')"
    by (auto simp: ensureBrowser_def split: option.splits sum.splits prod.splits)
  then show ?thesis by (rule getBrowser_quiet)
qed

lemma ensureBrowser_flag:
  assumes "ensureBrowser D s = Some (r, s')" "\<not> isInitializing (store s)"
  shows "\<not> isInitializing (store s')"
proof -
  from assms obtain r0 where "getBrowser D s = Some (r0, s')"
    by (auto simp: ensureBrowser_def split: option.splits sum.splits prod.splits)
  then show ?thesis using assms(2) by (rule getBrowser_flag)
qed

lemma ensureBrowser_total:
  assumes "\<not> isInitializing (store s)"
  shows "\<exists>r s'. ensureBrowser D s = Some (r, s')"
proof -
  from getBrowser_total [OF assms, of D] obtain r0 s' where "getBrowser D s = Some (r0, s')"
    by blast
  then show ?thesis
    by (cases r0) (auto simp: ensureBrowser_def)
qed

lemma awaitLoadState_simps [simp]:
  "store (awaitLoadState D p s) = store s"
  "env (awaitLoadState D p s) = snd (waitForLoadState D p None (env s))"
  "trace (awaitLoadState D p s) =
     trace s @ WaitForLoadState p None #
       (case fst (waitForLoadState D p None (env s)) of
          Some e \<Rightarrow> [Log WARN ''Page did not reach domcontentloaded state, continuing anyway'' []]
        | None \<Rightarrow> [])"
  by (simp_all add: awaitLoadState_def call_eq split: option.splits)

lemma attempt_with_page:
  "ensureBrowser D s = Some (Inr p, s1) \<Longrightarrow>
     attempt D operation s = Some (call (Invoke p) (operation p) (awaitLoadState D p s1))"
  by (simp add: attempt_def)

lemma attempt_trace:
  assumes "attempt D operation s = Some (r, s')"
  shows "\<exists>t. trace s' = trace s @ t \<and> failures t = [] \<and> retrySleeps t = 0 \<and>
             invocations t \<le> 1 \<and> loadStateWaits t = invocations t"
proof (cases "ensureBrowser D s")
  case None
  with assms show ?thesis by (simp add: attempt_def)
next
  case (Some a)
  obtain r0 s1 where a: "a = (r0, s1)" by (cases a)
  from ensureBrowser_quiet [of D s r0 s1] Some a obtain t0
    where t0: "trace s1 = trace s @ t0" "list_all quiet t0" by auto
  note q = quiet_list [OF t0(2)]
  show ?thesis
  proof (cases r0)
    case (Inl e)
    with Some a assms have "s' = s1" by (simp add: attempt_def)
    with t0 q show ?thesis by auto
  next
    case (Inr p)
    let ?w = "(case fst (waitForLoadState D p None (env s1)) of
           Some e \<Rightarrow> [Log WARN ''Page did not reach domcontentloaded state, continuing anyway'' []]
         | None \<Rightarrow> [])"
    let ?t = "t0 @ WaitForLoadState p None # ?w @ [Invoke p]"
    from Some a Inr have "attempt D operation s =
        Some (call (Invoke p) (operation p) (awaitLoadState D p s1))"
      by (simp add: attempt_with_page)
    with assms have "(r, s') = call (Invoke p) (operation p) (awaitLoadState D p s1)" by simp
    then have "s' = snd (call (Invoke p) (operation p) (awaitLoadState D p s1))"
      by (metis snd_conv)
    then have "trace s' = trace s @ ?t"
      using t0 by simp
    moreover have "failures ?t = []" "retrySleeps ?t = 0" "invocations ?t = 1" "loadStateWaits ?t = 1"
      using q by (simp_all add: isInvoke_def isLoadStateWait_def split: option.splits)
    ultimately show ?thesis by (intro exI [of _ ?t]) simp
  qed
qed

lemma attempt_flag:
  assumes "attempt D operation s = Some (r, s')" "\<not> isInitializing (store s)"
  shows "\<not> isInitializing (store s')"
proof (cases "ensureBrowser D s")
  case None
  with assms show ?thesis by (simp add: attempt_def)
next
  case (Some a)
  obtain r0 s1 where a: "a = (r0, s1)" by (cases a)
  from ensureBrowser_flag [of D s r0 s1] Some a assms(2) have f: "\<not> isInitializing (store s1)" by simp
  show ?thesis
  proof (cases r0)
    case (Inl e)
    with Some a assms f show ?thesis by (simp add: attempt_def)
  next
    case (Inr p)
    from Some a Inr have "attempt D operation s =
        Some (call (Invoke p) (operation p) (awaitLoadState D p s1))"
      by (simp add: attempt_with_page)
    with assms have "(r, s') = call (Invoke p) (operation p) (awaitLoadState D p s1)" by simp
    then have "s' = snd (call (Invoke p) (operation p) (awaitLoadState D p s1))"
      by (metis snd_conv)
    with f show ?thesis by simp
  qed
qed

lemma attempt_total:
  assumes "\<not> isInitializing (store s)"
  shows "\<exists>r s'. attempt D operation s = Some (r, s')"
proof -
  from ensureBrowser_total [OF assms, of D] obtain r0 s1 where e: "ensureBrowser D s = Some (r0, s1)"
    by blast
  show ?thesis
  proof (cases r0)
    case (Inl e')
    with e show ?thesis by (simp add: attempt_def)
  next
    case (Inr p)
    with e attempt_with_page [of D s p s1 operation] show ?thesis
      by (cases "call (Invoke p) (operation p) (awaitLoadState D p s1)") simp
  qed
qed


lemma safeLoop_spec:
  "safeLoop D operation m k le s = Some (r, s') \<Longrightarrow>
     \<exists>t. trace s' = trace s @ t \<and> loopSpec m k le r t"
proof (induction D operation m k le s rule: safeLoop.induct)
  case (1 D operation m k le s)
  show ?case
  proof (cases "k \<le> m")
    case False
    with "1.prems" have "r = Inl (case le of Some x \<Rightarrow> x | None \<Rightarrow> ErrorObj ''Operation failed after retries'')"
      "s' = s"
      by (simp_all add: safeLoop_done)
    with False show ?thesis
      by (intro exI [of _ "[]"]) (simp add: loopSpec_def)
  next
    case True
    show ?thesis
    proof (cases "attempt D operation s")
      case None
      with True "1.prems" show ?thesis by (simp add: safeLoop_hang)
    next
      case (Some a)
      obtain r1 s1 where a: "a = (r1, s1)" by (cases a)
      from attempt_trace [of D operation s r1 s1] Some a obtain t1 where
        t1: "trace s1 = trace s @ t1" "failures t1 = []" "retrySleeps t1 = 0"
          "invocations t1 \<le> 1" "loadStateWaits t1 = invocations t1"
        by auto
      show ?thesis
      proof (cases r1)
        case (Inr v)
        with True Some a "1.prems" have "r = Inr v" "s' = s1"
          by (simp_all add: safeLoop_ok)
        with t1 True show ?thesis
          by (intro exI [of _ t1]) (simp add: loopSpec_def)
      next
        case (Inl e)
        let ?s3 = "afterFailure m k e s1"
        let ?mid = "Log ERROR ''Browser operation failed:'' [E e] #
           (if k + 1 \<le> m
            then [Log INFO ''Retrying operation (${retries}/${maxRetries})...'' [N (k + 1), N m],
                  Sleep 1000]
            else [])"
        from True Some a Inl "1.prems"
        have rec: "safeLoop D operation m (k + 1) (Some (toError e)) ?s3 = Some (r, s')"
          by (simp add: safeLoop_retry)
        from "1.IH" [OF True Some a [symmetric] Inl rec] obtain t2 where
          t2: "trace s' = trace ?s3 @ t2" "loopSpec m (k + 1) (Some (toError e)) r t2"
          by auto
        have tr: "trace s' = trace s @ (t1 @ ?mid @ t2)"
          using t1(1) t2(1) by simp
        have f: "failures (t1 @ ?mid @ t2) = e # failures t2"
          and sl: "retrySleeps (t1 @ ?mid @ t2) = (if k + 1 \<le> m then 1 else 0) + retrySleeps t2"
          and iv: "invocations (t1 @ ?mid @ t2) = invocations t1 + invocations t2"
          and lw: "loadStateWaits (t1 @ ?mid @ t2) = invocations t1 + loadStateWaits t2"
          using t1 by (simp_all add: isInvoke_def isLoadStateWait_def)
        have "loopSpec m k le r (t1 @ ?mid @ t2)"
        proof (cases r)
          case (Inr v)
          with t2(2) True t1(4) show ?thesis
            unfolding loopSpec_def f sl iv lw by auto
        next
          case (Inl e')
          have "failures t2 \<noteq> [] \<Longrightarrow> 1 \<le> int (length (failures t2))"
            by (cases "failures t2") simp_all
          with Inl t2(2) True t1(4) show ?thesis
            unfolding loopSpec_def f sl iv lw by (auto split: if_splits)
        qed
        with tr show ?thesis by blast
      qed
    qed
  qed
qed

lemma safeLoop_total:
  "\<not> isInitializing (store s) \<Longrightarrow> \<exists>r s'. safeLoop D operation m k le s = Some (r, s')"
proof (induction D operation m k le s rule: safeLoop.induct)
  case (1 D operation m k le s)
  show ?case
  proof (cases "k \<le> m")
    case False
    then show ?thesis by (simp add: safeLoop_done)
  next
    case True
    from attempt_total [OF "1.prems", of D operation] obtain r1 s1
      where a: "attempt D operation s = Some (r1, s1)" by blast
    from attempt_flag [OF a "1.prems"] have fl: "\<not> isInitializing (store s1)" .
    show ?thesis
    proof (cases r1)
      case (Inr v)
      with True a show ?thesis by (simp add: safeLoop_ok)
    next
      case (Inl e)
      from "1.IH" [OF True a refl Inl] fl
      have "\<exists>r s'. safeLoop D operation m (k + 1) (Some (toError e)) (afterFailure m k e s1) = Some (r, s')"
        by simp
      with True a Inl show ?thesis by (simp add: safeLoop_retry)
    qed
  qed
qed

lemma okDriver_simps [simp]:
  "launch okDriver w = (Inr (fresh w), w\<lparr>fresh := fresh w + 1\<rparr>)"
  "newContext okDriver b w = (Inr (fresh w), w\<lparr>fresh := fresh w + 1\<rparr>)"
  "newPage okDriver c w = (Inr (fresh w), w\<lparr>fresh := fresh w + 1\<rparr>)"
  "isClosed okDriver p w = False"
  "isConnected okDriver b w = True"
  "closePage okDriver p w = (None, w)"
  "closeContext okDriver c w = (None, w)"
  "closeBrowser okDriver b w = (None, w)"
  "waitForLoadState okDriver p t w = (None, w)"
  "loadUrl okDriver p u w = (None, w)"
  "waitForTimeout okDriver p n w = (None, w)"
  by (simp_all add: okDriver_def)

lemma initialize_okDriver:
  "fst (initialize okDriver s) = Inr (fresh (env s), fresh (env s) + 2)"
  "calls (env (snd (initialize okDriver s))) = calls (env s)"
  by (simp_all add: initialize_def launchBrowser_def Let_def call_eq)

lemma ensureBrowser_okDriver:
  assumes "\<not> isInitializing (store s)"
  shows "\<exists>p s1. ensureBrowser okDriver s = Some (Inr p, s1) \<and> calls (env s1) = calls (env s) \<and>
           \<not> isInitializing (store s1)"
proof (cases "available okDriver s")
  case None
  obtain r s1 where i: "initialize okDriver s = (r, s1)" by (cases "initialize okDriver s")
  with initialize_okDriver [of s] initialize_flag [of okDriver s]
  have "r = Inr (fresh (env s), fresh (env s) + 2)" "calls (env s1) = calls (env s)"
    "\<not> isInitializing (store s1)" by simp_all
  with None assms i show ?thesis
    by (simp add: ensureBrowser_def getBrowser_eq)
next
  case (Some v)
  obtain b p where "v = (b, p)" by (cases v)
  with Some assms show ?thesis
    by (simp add: ensureBrowser_def getBrowser_eq)
qed

lemma attempt_stub:
  assumes "\<not> isInitializing (store s)"
  shows "\<exists>s'. attempt okDriver (failsThenSucceeds errs n) s =
            Some (if calls (env s) < n then Inl (errs (calls (env s) + 1)) else Inr (calls (env s)), s') \<and>
          calls (env s') = calls (env s) + 1 \<and> \<not> isInitializing (store s')"
proof -
  from ensureBrowser_okDriver [OF assms] obtain p s1 where
    e: "ensureBrowser okDriver s = Some (Inr p, s1)" "calls (env s1) = calls (env s)"
      "\<not> isInitializing (store s1)" by blast
  show ?thesis
    using e by (simp add: attempt_with_page call_eq failsThenSucceeds_def)
qed

lemma safeLoop_stub:
  assumes "\<not> isInitializing (store s)" "calls (env s) = nat k" "0 \<le> k" "k \<le> int n"
    "k \<le> m + 1" "le = (if k = 0 then None else Some (toError (errs (nat k))))"
  shows "\<exists>s'. safeLoop okDriver (failsThenSucceeds errs n) m k le s =
            Some (if int n \<le> m then Inr n
                  else if 0 \<le> m then Inl (toError (errs (nat m + 1)))
                  else Inl (ErrorObj ''Operation failed after retries''), s') \<and>
          calls (env s') = (if int n \<le> m then n + 1 else nat (m + 1))"
  using assms
proof (induction okDriver "failsThenSucceeds errs n :: (tenv, nat) operation" m k le s rule: safeLoop.induct)
  case (1 m k le s)
  show ?case
  proof (cases "k \<le> m")
    case False
    with "1.prems" have km: "k = m + 1" by simp
    with "1.prems" False show ?thesis
      by (auto simp: safeLoop_done nat_add_distrib)
  next
    case True
    from attempt_stub [OF "1.prems"(1), of errs n] obtain s1 where
      a: "attempt okDriver (failsThenSucceeds errs n) s =
            Some (if calls (env s) < n then Inl (errs (calls (env s) + 1)) else Inr (calls (env s)), s1)"
      and c: "calls (env s1) = calls (env s) + 1" and fl: "\<not> isInitializing (store s1)" by blast
    show ?thesis
    proof (cases "calls (env s) < n")
      case False
      with "1.prems" have kn: "nat k = n" "int n \<le> m" using True by auto
      with a False True c "1.prems" show ?thesis
        by (simp add: safeLoop_ok)
    next
      case less: True
      let ?e = "errs (calls (env s) + 1)"
      let ?s3 = "afterFailure m k ?e s1"
      from a less have a': "attempt okDriver (failsThenSucceeds errs n) s = Some (Inl ?e, s1)" by simp
      have p: "\<not> isInitializing (store ?s3)" "calls (env ?s3) = nat (k + 1)" "0 \<le> k + 1" "k + 1 \<le> int n"
        "k + 1 \<le> m + 1" "Some (toError ?e) = (if k + 1 = 0 then None else Some (toError (errs (nat (k + 1)))))"
        using fl c "1.prems" less True by (auto simp: nat_add_distrib)
      from "1.hyps" [OF True a' refl refl p]
      show ?thesis using True a' by (simp add: safeLoop_retry)
    qed
  qed
qed


text \<open>
  C1, as the code has it. For every driver, operation, bound and state:
  \<^item> from a state in which no initialisation is in flight the executor returns;
  \<^item> whenever it returns, the operation was invoked at most \<open>1 + maxRetries\<close> times;
  \<^item> when it raises, exactly \<open>1 + maxRetries\<close> attempts failed (none when the bound is
    negative), one second passed between each two, and the error raised is the last
    one caught (made an \<open>Error\<close> when it is not one), or the stock error when nothing
    was attempted;
  \<^item> when it succeeds, at most \<open>maxRetries\<close> attempts failed before, a second after each.

  For the stub that fails \<open>n\<close> times and then succeeds, in a browser where all else
  succeeds: with \<open>n \<le> maxRetries\<close> the executor returns the stub's value after \<open>n + 1\<close>
  invocations; with \<open>n > maxRetries \<ge> 0\<close> it invokes the stub \<open>maxRetries + 1\<close> times
  and raises the error of the last of these invocations, which is error number
  \<open>maxRetries + 1\<close>, not number \<open>n\<close>.
\<close>

theorem safeBrowserOperation_retry_bound:
  "(\<not> isInitializing (store s) \<longrightarrow>
      (\<exists>r s'. safeBrowserOperation D operation maxRetries s = Some (r, s')))
   \<and> (\<forall>r s'. safeBrowserOperation D operation maxRetries s = Some (r, s') \<longrightarrow>
        (\<exists>t. trace s' = trace s @ t \<and>
           int (invocations t) \<le> max 0 (1 + maxRetries) \<and>
           (case r of
              Inr v \<Rightarrow>
                int (length (failures t)) \<le> maxRetries \<and> retrySleeps t = length (failures t)
            | Inl e \<Rightarrow>
                int (length (failures t)) = max 0 (1 + maxRetries) \<and>
                retrySleeps t = length (failures t) - 1 \<and>
                e = (if failures t = [] then ErrorObj ''Operation failed after retries''
                     else toError (last (failures t))))))
   \<and> (\<forall>errs n s0. \<not> isInitializing (store s0) \<and> calls (env s0) = 0 \<longrightarrow>
        (\<exists>s'. safeBrowserOperation okDriver (failsThenSucceeds errs n) maxRetries s0 =
                Some (if int n \<le> maxRetries then Inr n
                      else if 0 \<le> maxRetries then Inl (toError (errs (nat maxRetries + 1)))
                      else Inl (ErrorObj ''Operation failed after retries''), s') \<and>
              calls (env s') = (if int n \<le> maxRetries then n + 1 else nat (maxRetries + 1))))"
proof (intro conjI allI impI)
  assume "\<not> isInitializing (store s)"
  then show "\<exists>r s'. safeBrowserOperation D operation maxRetries s = Some (r, s')"
    unfolding safeBrowserOperation_def by (rule safeLoop_total)
next
  fix r s'
  assume "safeBrowserOperation D operation maxRetries s = Some (r, s')"
  then have "safeLoop D operation maxRetries 0 None s = Some (r, s')"
    by (simp add: safeBrowserOperation_def)
  from safeLoop_spec [OF this] obtain t where
    t: "trace s' = trace s @ t" "loopSpec maxRetries 0 None r t" by blast
  from t(2) have "int (invocations t) \<le> max 0 (1 + maxRetries) \<and>
           (case r of
              Inr v \<Rightarrow>
                int (length (failures t)) \<le> maxRetries \<and> retrySleeps t = length (failures t)
            | Inl e \<Rightarrow>
                int (length (failures t)) = max 0 (1 + maxRetries) \<and>
                retrySleeps t = length (failures t) - 1 \<and>
                e = (if failures t = [] then ErrorObj ''Operation failed after retries''
                     else toError (last (failures t))))"
    by (cases r) (auto simp: loopSpec_def add.commute)
  with t(1) show "\<exists>t. trace s' = trace s @ t \<and>
           int (invocations t) \<le> max 0 (1 + maxRetries) \<and>
           (case r of
              Inr v \<Rightarrow>
                int (length (failures t)) \<le> maxRetries \<and> retrySleeps t = length (failures t)
            | Inl e \<Rightarrow>
                int (length (failures t)) = max 0 (1 + maxRetries) \<and>
                retrySleeps t = length (failures t) - 1 \<and>
                e = (if failures t = [] then ErrorObj ''Operation failed after retries''
                     else toError (last (failures t))))"
    by blast
next
  fix errs :: "nat \<Rightarrow> thrown" and n :: nat and s0 :: "tenv state"
  assume a: "\<not> isInitializing (store s0) \<and> calls (env s0) = 0"
  show "\<exists>s'. safeBrowserOperation okDriver (failsThenSucceeds errs n) maxRetries s0 =
                Some (if int n \<le> maxRetries then Inr n
                      else if 0 \<le> maxRetries then Inl (toError (errs (nat maxRetries + 1)))
                      else Inl (ErrorObj ''Operation failed after retries''), s') \<and>
              calls (env s') = (if int n \<le> maxRetries then n + 1 else nat (maxRetries + 1))"
  proof (cases "0 \<le> maxRetries")
    case True
    with a safeLoop_stub [of s0 0 n maxRetries None errs] show ?thesis
      by (simp add: safeBrowserOperation_def)
  next
    case False
    with a show ?thesis
      by (simp add: safeBrowserOperation_def safeLoop_done)
  qed
qed

text \<open>
  The claim as written fails: with the default bound 1 and a stub that would fail three
  times, the second error is raised, not the third.
\<close>

theorem safeBrowserOperation_raises_last_observed_not_nth:
  "map_option fst
     (safeBrowserOperation okDriver (failsThenSucceeds numbered 3) 1 (initial tenv0)) =
     Some (Inl (numbered 2)) \<and>
   numbered 2 \<noteq> numbered 3"
proof -
  have "\<not> isInitializing (store (initial tenv0))" "calls (env (initial tenv0)) = nat 0"
    by (simp_all add: initial_def emptyStore_def tenv0_def)
  from safeLoop_stub [OF this, of 3 1 None numbered]
  have "map_option fst
     (safeBrowserOperation okDriver (failsThenSucceeds numbered 3) 1 (initial tenv0)) =
     Some (Inl (toError (numbered 2)))"
    by (auto simp: safeBrowserOperation_def eval_nat_numeral)
  then show ?thesis by (simp add: numbered_def eval_nat_numeral)
qed

theorem safeBrowserOperation_retry_bound_witness:
  "(\<exists>s'. safeBrowserOperation okDriver (failsThenSucceeds numbered 1) 1 (initial tenv0) =
            Some (Inr 1, s') \<and> calls (env s') = 2) \<and>
   (\<exists>s'. safeBrowserOperation okDriver (failsThenSucceeds numbered 5) 1 (initial tenv0) =
            Some (Inl (numbered 2), s') \<and> calls (env s') = 2)"
proof -
  have i: "\<not> isInitializing (store (initial tenv0)) \<and> calls (env (initial tenv0)) = 0"
    by (simp add: initial_def emptyStore_def tenv0_def)
  note th = safeBrowserOperation_retry_bound
    [of "initial tenv0" okDriver "failsThenSucceeds numbered 1" 1]
  from th i have
    "\<exists>s'. safeBrowserOperation okDriver (failsThenSucceeds numbered 1) 1 (initial tenv0) =
                Some (if int 1 \<le> 1 then Inr 1
                      else if 0 \<le> (1::int) then Inl (toError (numbered (nat 1 + 1)))
                      else Inl (ErrorObj ''Operation failed after retries''), s') \<and>
              calls (env s') = (if int 1 \<le> 1 then 1 + 1 else nat (1 + 1))"
    by blast
  moreover from th i have
    "\<exists>s'. safeBrowserOperation okDriver (failsThenSucceeds numbered 5) 1 (initial tenv0) =
                Some (if int 5 \<le> 1 then Inr 5
                      else if 0 \<le> (1::int) then Inl (toError (numbered (nat 1 + 1)))
                      else Inl (ErrorObj ''Operation failed after retries''), s') \<and>
              calls (env s') = (if int 5 \<le> 1 then 5 + 1 else nat (1 + 1))"
    by blast
  ultimately show ?thesis by (simp add: numbered_def eval_nat_numeral)
qed

section \<open>Claims about the load-state wait of the Action Executor\<close>

lemma withoutLoadStateFailures_simps [simp]:
  "launch (withoutLoadStateFailures D) = launch D"
  "newContext (withoutLoadStateFailures D) = newContext D"
  "newPage (withoutLoadStateFailures D) = newPage D"
  "isClosed (withoutLoadStateFailures D) = isClosed D"
  "waitForLoadState (withoutLoadStateFailures D) p t w = (None, snd (waitForLoadState D p t w))"
  by (simp_all add: withoutLoadStateFailures_def)

lemma ensureBrowser_withoutLoadStateFailures:
  "ensureBrowser (withoutLoadStateFailures D) s = ensureBrowser D s"
  unfolding ensureBrowser_def getBrowser_def available_def initialize_def launchBrowser_def
    withoutLoadStateFailures_simps(1-4)
  by (rule refl)

text \<open>The steps of a trace.\<close>

lemma steps_simps [simp]:
  "steps [] = []"
  "steps (t @ u) = steps t @ steps u"
  "steps (ev # t) = (case stepOf ev of None \<Rightarrow> steps t | Some x \<Rightarrow> x # steps t)"
  by (simp_all add: steps_def List.map_filter_def split: option.splits)

lemma quiet_stepOf: "quiet ev \<Longrightarrow> stepOf ev = None"
  by (cases ev) (simp_all add: quiet_def isInvoke_def isLoadStateWait_def)

lemma quiet_steps: "list_all quiet t \<Longrightarrow> steps t = []"
  by (induction t) (simp_all add: quiet_stepOf)

lemma waitsThenInvokes_append:
  "waitsThenInvokes a \<Longrightarrow> waitsThenInvokes (a @ b) = waitsThenInvokes b"
  by (induction a rule: waitsThenInvokes.induct) simp_all

lemma attempt_steps:
  assumes "attempt D operation s = Some (r, s')"
  shows "\<exists>t. trace s' = trace s @ t \<and> waitsThenInvokes (steps t)"
proof (cases "ensureBrowser D s")
  case None
  with assms show ?thesis by (simp add: attempt_def)
next
  case (Some a)
  obtain r0 s1 where a: "a = (r0, s1)" by (cases a)
  from ensureBrowser_quiet [of D s r0 s1] Some a obtain t0
    where t0: "trace s1 = trace s @ t0" "list_all quiet t0" by auto
  note q = quiet_steps [OF t0(2)]
  show ?thesis
  proof (cases r0)
    case (Inl e)
    with Some a assms have "s' = s1" by (simp add: attempt_def)
    with t0 q show ?thesis by auto
  next
    case (Inr p)
    let ?w = "(case fst (waitForLoadState D p None (env s1)) of
           Some e \<Rightarrow> [Log WARN ''Page did not reach domcontentloaded state, continuing anyway'' []]
         | None \<Rightarrow> [])"
    let ?t = "t0 @ WaitForLoadState p None # ?w @ [Invoke p]"
    from Some a Inr have "attempt D operation s =
        Some (call (Invoke p) (operation p) (awaitLoadState D p s1))"
      by (simp add: attempt_with_page)
    with assms have "(r, s') = call (Invoke p) (operation p) (awaitLoadState D p s1)" by simp
    then have "s' = snd (call (Invoke p) (operation p) (awaitLoadState D p s1))"
      by (metis snd_conv)
    then have "trace s' = trace s @ ?t"
      using t0 by simp
    moreover have "waitsThenInvokes (steps ?t)"
      using q by (simp add: isLoadStateWarning_def split: option.splits)
    ultimately show ?thesis by (intro exI [of _ ?t]) simp
  qed
qed

lemma safeLoop_steps:
  "safeLoop D operation m k le s = Some (r, s') \<Longrightarrow>
     \<exists>t. trace s' = trace s @ t \<and> waitsThenInvokes (steps t)"
proof (induction D operation m k le s rule: safeLoop.induct)
  case (1 D operation m k le s)
  show ?case
  proof (cases "k \<le> m")
    case False
    with "1.prems" have "s' = s" by (simp add: safeLoop_done)
    then show ?thesis by simp
  next
    case True
    show ?thesis
    proof (cases "attempt D operation s")
      case None
      with True "1.prems" show ?thesis by (simp add: safeLoop_hang)
    next
      case (Some a)
      obtain r1 s1 where a: "a = (r1, s1)" by (cases a)
      from attempt_steps [of D operation s r1 s1] Some a obtain t1 where
        t1: "trace s1 = trace s @ t1" "waitsThenInvokes (steps t1)" by auto
      show ?thesis
      proof (cases r1)
        case (Inr v)
        with True Some a "1.prems" have "s' = s1" by (simp add: safeLoop_ok)
        with t1 show ?thesis by auto
      next
        case (Inl e)
        let ?s2 = "afterFailure m k e s1"
        from True Some a Inl "1.prems"
        have n: "safeLoop D operation m (k + 1) (Some (toError e)) ?s2 = Some (r, s')"
          by (simp add: safeLoop_retry)
        from "1.IH" [OF True Some [unfolded a Inl] refl refl n] obtain t2 where
          t2: "trace s' = trace ?s2 @ t2" "waitsThenInvokes (steps t2)" by auto
        let ?f = "Log ERROR ''Browser operation failed:'' [E e] #
          (if k + 1 \<le> m
           then [Log INFO ''Retrying operation (${retries}/${maxRetries})...'' [N (k + 1), N m],
                 Sleep 1000]
           else [])"
        have f: "steps ?f = []" by (simp add: isLoadStateWarning_def)
        have "trace s' = trace s @ (t1 @ ?f @ t2)" using t1 t2 by simp
        moreover have "waitsThenInvokes (steps (t1 @ ?f @ t2))"
          using t1(2) t2(2) f by (simp only: steps_simps(2) f append_Nil waitsThenInvokes_append)
        ultimately show ?thesis by blast
      qed
    qed
  qed
qed

text \<open>Runs from two states that differ in the warnings only.\<close>

lemma sameButWarnings_refl [simp]: "sameButWarnings s s"
  by (simp add: sameButWarnings_def)

lemma launchBrowser_sameButWarnings:
  "sameButWarnings s' s \<Longrightarrow>
     fst (launchBrowser D s') = fst (launchBrowser D s) \<and>
     sameButWarnings (snd (launchBrowser D s')) (snd (launchBrowser D s))"
  by (simp add: launchBrowser_def Let_def call_eq sameButWarnings_def split: sum.splits)

lemma initialize_sameButWarnings:
  assumes "sameButWarnings s' s"
  shows "fst (initialize D s') = fst (initialize D s) \<and>
     sameButWarnings (snd (initialize D s')) (snd (initialize D s))"
proof -
  from assms have "sameButWarnings (setInitializing True s') (setInitializing True s)"
    by (simp add: sameButWarnings_def)
  from launchBrowser_sameButWarnings [OF this, of D]
  show ?thesis
    by (cases "launchBrowser D (setInitializing True s')";
        cases "launchBrowser D (setInitializing True s)")
       (auto simp: initialize_def sameButWarnings_def split: sum.splits)
qed

lemma getBrowser_sameButWarnings:
  assumes "sameButWarnings s' s"
  shows "agree (getBrowser D s') (getBrowser D s)"
proof -
  from assms have a: "available D s' = available D s" "isInitializing (store s') = isInitializing (store s)"
    by (simp_all add: available_def sameButWarnings_def split: option.splits)
  show ?thesis
  proof (cases "available D s")
    case (Some v)
    with a assms show ?thesis
      by (simp add: getBrowser_eq agree_def sameButWarnings_def)
  next
    case None
    with a initialize_sameButWarnings [OF assms, of D] show ?thesis
      by (simp add: getBrowser_eq agree_def)
  qed
qed

lemma ensureBrowser_sameButWarnings:
  assumes "sameButWarnings s' s"
  shows "agree (ensureBrowser D s') (ensureBrowser D s)"
  using getBrowser_sameButWarnings [OF assms, of D]
  by (cases "getBrowser D s'"; cases "getBrowser D s")
     (auto simp: ensureBrowser_def agree_def split: sum.splits)

lemma attempt_sameButWarnings:
  assumes "sameButWarnings s' s"
  shows "agree (attempt (withoutLoadStateFailures D) operation s') (attempt D operation s)"
proof -
  note e = ensureBrowser_sameButWarnings [OF assms, of D]
  show ?thesis
  proof (cases "ensureBrowser D s")
    case None
    with e have "ensureBrowser D s' = None" by (simp add: agree_def)
    with None show ?thesis
      by (simp add: attempt_def ensureBrowser_withoutLoadStateFailures agree_def)
  next
    case (Some a)
    obtain r0 s1 where a: "a = (r0, s1)" by (cases a)
    from e Some a obtain s1' where
      s1': "ensureBrowser D s' = Some (r0, s1')" "sameButWarnings s1' s1"
      by (cases "ensureBrowser D s'") (auto simp: agree_def)
    show ?thesis
    proof (cases r0)
      case (Inl e)
      with Some a s1' show ?thesis
        by (simp add: attempt_def ensureBrowser_withoutLoadStateFailures agree_def)
    next
      case (Inr p)
      with Some a s1' show ?thesis
        by (simp add: attempt_def ensureBrowser_withoutLoadStateFailures agree_def call_eq
            sameButWarnings_def isLoadStateWarning_def isInvoke_def split: option.splits)
    qed
  qed
qed

lemma safeLoop_sameButWarnings:
  "sameButWarnings s' s \<Longrightarrow>
     agree (safeLoop (withoutLoadStateFailures D) operation m k le s')
           (safeLoop D operation m k le s)"
proof (induction D operation m k le s arbitrary: s' rule: safeLoop.induct)
  case (1 D operation m k le s)
  let ?D' = "withoutLoadStateFailures D"
  show ?case
  proof (cases "k \<le> m")
    case False
    with "1.prems" show ?thesis by (simp add: safeLoop_done agree_def)
  next
    case True
    note at = attempt_sameButWarnings [OF "1.prems", of D operation]
    show ?thesis
    proof (cases "attempt D operation s")
      case None
      with at have "attempt ?D' operation s' = None" by (simp add: agree_def)
      with None True show ?thesis by (simp add: safeLoop_hang agree_def)
    next
      case (Some a)
      obtain r1 s1 where a: "a = (r1, s1)" by (cases a)
      from at Some a obtain s1' where
        s1': "attempt ?D' operation s' = Some (r1, s1')" "sameButWarnings s1' s1"
        by (cases "attempt ?D' operation s'") (auto simp: agree_def)
      show ?thesis
      proof (cases r1)
        case (Inr v)
        with True Some a s1' show ?thesis by (simp add: safeLoop_ok agree_def)
      next
        case (Inl e)
        from s1'(2) have n: "sameButWarnings (afterFailure m k e s1') (afterFailure m k e s1)"
          by (simp add: sameButWarnings_def)
        from "1.IH" [OF True Some [unfolded a Inl] refl refl n]
        show ?thesis using True Some a Inl s1'(1) by (simp add: safeLoop_retry)
      qed
    qed
  qed
qed

lemma agree_observable:
  "agree x' x \<Longrightarrow> observable x' = observable x"
  by (cases x'; cases x) (auto simp: agree_def observable_def sameButWarnings_def)






section \<open>Claims about \<open>getTextTool\<close>\<close>

lemma ensureBrowser_page:
  assumes "ensureBrowser D s = Some (Inr p, s1)"
  shows "page (store s1) = Some p"
proof (cases "available D s")
  case (Some v)
  obtain b q where v: "v = (b, q)" by (cases v)
  from Some v have "page (store s) = Some q"
    by (auto simp: available_def split: option.splits if_splits)
  with assms Some v show ?thesis
    by (auto simp: ensureBrowser_def getBrowser_eq)
next
  case None
  show ?thesis
  proof (cases "isInitializing (store s)")
    case True
    with None assms show ?thesis by (simp add: ensureBrowser_def getBrowser_eq)
  next
    case False
    obtain r u where l: "launchBrowser D (setInitializing True s) = (r, u)"
      by (cases "launchBrowser D (setInitializing True s)")
    show ?thesis
    proof (cases r)
      case (Inl e)
      with None False l assms show ?thesis
        by (simp add: ensureBrowser_def getBrowser_eq initialize_def)
    next
      case (Inr bp)
      obtain b q where bp: "bp = (b, q)" by (cases bp)
      from launchBrowser_result [of D "setInitializing True s" b q] l Inr bp
      have "page (store u) = Some q" by simp
      with None False l Inr bp assms show ?thesis
        by (auto simp: ensureBrowser_def getBrowser_eq initialize_def)
    qed
  qed
qed

lemma attempt_success_from_operation:
  assumes "attempt D operation s = Some (Inr v, s')"
  shows "\<exists>p w0. page (store s') = Some p \<and> last (trace s') = Invoke p \<and>
           operation p (snd (waitForLoadState D p None w0)) = (Inr v, env s')"
proof (cases "ensureBrowser D s")
  case None
  with assms show ?thesis by (simp add: attempt_def)
next
  case (Some a)
  obtain r0 s1 where a: "a = (r0, s1)" by (cases a)
  show ?thesis
  proof (cases r0)
    case (Inl e)
    with Some a assms show ?thesis by (simp add: attempt_def)
  next
    case (Inr p)
    let ?w = "snd (waitForLoadState D p None (env s1))"
    from Some a Inr have pg: "page (store s1) = Some p" by (simp add: ensureBrowser_page)
    from Some a Inr assms have "(Inr v, s') = call (Invoke p) (operation p) (awaitLoadState D p s1)"
      by (simp add: attempt_with_page)
    then have "fst (operation p ?w) = Inr v" "env s' = snd (operation p ?w)"
      "store s' = store s1" "last (trace s') = Invoke p"
      by (simp_all add: call_eq)
    with pg have "page (store s') = Some p" "last (trace s') = Invoke p"
      "operation p ?w = (Inr v, env s')"
      by (simp_all add: prod_eq_iff)
    then show ?thesis by blast
  qed
qed

lemma safeLoop_success_from_operation:
  "safeLoop D operation m k le s = Some (Inr v, s') \<Longrightarrow>
     \<exists>p w0. page (store s') = Some p \<and> last (trace s') = Invoke p \<and>
       operation p (snd (waitForLoadState D p None w0)) = (Inr v, env s')"
proof (induction D operation m k le s rule: safeLoop.induct)
  case (1 D operation m k le s)
  show ?case
  proof (cases "k \<le> m")
    case False
    with "1.prems" show ?thesis by (simp add: safeLoop_done)
  next
    case True
    show ?thesis
    proof (cases "attempt D operation s")
      case None
      with True "1.prems" show ?thesis by (simp add: safeLoop_hang)
    next
      case (Some a)
      obtain r1 s1 where a: "a = (r1, s1)" by (cases a)
      show ?thesis
      proof (cases r1)
        case (Inr v1)
        with True Some a "1.prems" have "attempt D operation s = Some (Inr v, s')"
          by (simp add: safeLoop_ok)
        then show ?thesis by (rule attempt_success_from_operation)
      next
        case (Inl e)
        with True Some a "1.prems"
        have "safeLoop D operation m (k + 1) (Some (toError e)) (afterFailure m k e s1) =
                Some (Inr v, s')"
          by (simp add: safeLoop_retry)
        from "1.IH" [OF True Some a [symmetric] Inl this] show ?thesis .
      qed
    qed
  qed
qed

lemma getTextTool_first_attempt:
  assumes "ensureBrowser D s = Some (Inr p, s1)"
    and "waitForSelector D p selector timeout (snd (waitForLoadState D p None (env s1))) =
           (None, w1)"
    and "evalTextContent D p selector w1 = (Inr tc, w2)"
  shows "\<exists>u. getTextTool D selector timeout s =
              Some (Inr \<lparr>gt_result = js ''Text content: '' @ textOf tc, gt_text = textOf tc\<rparr>, u) \<and>
           store u = store s1 \<and> env u = w2"
proof -
  let ?op = "getTextOperation D selector timeout"
  let ?u = "snd (call (Invoke p) (?op p) (awaitLoadState D p s1))"
  let ?r = "\<lparr>gt_result = js ''Text content: '' @ textOf tc, gt_text = textOf tc\<rparr>"
  have o: "?op p (snd (waitForLoadState D p None (env s1))) = (Inr ?r, w2)"
    using assms(2,3) by (simp add: getTextOperation_def)
  from assms(1) have "attempt D ?op s = Some (call (Invoke p) (?op p) (awaitLoadState D p s1))"
    by (rule attempt_with_page)
  then have "attempt D ?op s = Some (Inr ?r, ?u)"
    by (simp add: call_eq o)
  then have "getTextTool D selector timeout s = Some (Inr ?r, ?u)"
    by (simp add: getTextTool_def safeBrowserOperation_def safeLoop_ok)
  moreover have "store ?u = store s1" "env ?u = w2" by (simp_all add: o)
  ultimately show ?thesis by blast
qed

lemma getTextOperation_success:
  assumes "getTextOperation D selector timeout p w = (Inr r, w2)"
  shows "\<exists>w1 textContent.
           waitForSelector D p selector timeout w = (None, w1) \<and>
           evalTextContent D p selector w1 = (Inr textContent, w2) \<and>
           gt_text r = textOf textContent \<and>
           gt_result r = js ''Text content: '' @ textOf textContent"
proof -
  obtain a w1 where ws: "waitForSelector D p selector timeout w = (a, w1)"
    by (cases "waitForSelector D p selector timeout w")
  obtain b w2' where ev: "evalTextContent D p selector w1 = (b, w2')"
    by (cases "evalTextContent D p selector w1")
  from assms ws have a: "a = None"
    by (cases a) (simp_all add: getTextOperation_def)
  from assms ws ev a obtain textContent where b: "b = Inr textContent"
    by (cases b) (simp_all add: getTextOperation_def)
  from assms ws ev a b have "w2' = w2" "gt_text r = textOf textContent"
    "gt_result r = js ''Text content: '' @ textOf textContent"
    by (auto simp: getTextOperation_def)
  with ws ev a b show ?thesis by blast
qed

lemma trim_white: "list_all isWhiteSpace t \<Longrightarrow> trim t = []"
  by (auto simp: trim_def list_all_iff dest: set_dropWhileD)

lemma trim_split:
  "dropWhile isWhiteSpace t =
     trim t @ rev (takeWhile isWhiteSpace (rev (dropWhile isWhiteSpace t)))"
proof -
  let ?u = "dropWhile isWhiteSpace t"
  have "rev (takeWhile isWhiteSpace (rev ?u) @ dropWhile isWhiteSpace (rev ?u)) = ?u"
    by (simp only: takeWhile_dropWhile_id rev_rev_ident)
  then have "rev (dropWhile isWhiteSpace (rev ?u)) @ rev (takeWhile isWhiteSpace (rev ?u)) = ?u"
    by (simp only: rev_append)
  then show ?thesis by (simp only: trim_def)
qed

lemma trim_decomposes:
  "\<exists>pre post. t = pre @ trim t @ post \<and> list_all isWhiteSpace pre \<and> list_all isWhiteSpace post"
proof -
  let ?u = "dropWhile isWhiteSpace t"
  let ?post = "rev (takeWhile isWhiteSpace (rev ?u))"
  have "takeWhile isWhiteSpace t @ ?u = t" by (rule takeWhile_dropWhile_id)
  with trim_split [of t] have "t = takeWhile isWhiteSpace t @ trim t @ ?post" by simp
  moreover have "list_all isWhiteSpace (takeWhile isWhiteSpace t)" "list_all isWhiteSpace ?post"
    by (auto simp: list_all_iff dest: set_takeWhileD)
  ultimately show ?thesis by blast
qed

lemma trim_ends:
  assumes "trim t \<noteq> []"
  shows "\<not> isWhiteSpace (hd (trim t)) \<and> \<not> isWhiteSpace (last (trim t))"
proof -
  let ?u = "dropWhile isWhiteSpace t"
  let ?v = "dropWhile isWhiteSpace (rev ?u)"
  from assms have v: "?v \<noteq> []" by (simp add: trim_def)
  have u: "?u \<noteq> []"
  proof
    assume "?u = []"
    then have "?v = []" by (simp only: rev.simps dropWhile.simps)
    with v show False by simp
  qed
  have l: "last (trim t) = hd ?v" using v by (simp add: trim_def last_rev)
  from trim_split [of t] have "hd ?u = hd (trim t @ rev (takeWhile isWhiteSpace (rev ?u)))"
    by simp
  with assms have h: "hd (trim t) = hd ?u" by simp
  from u v show ?thesis
    unfolding l h by (simp add: hd_dropWhile)
qed

text \<open>
  C10. When the Session Store hands out a page, the wait for the selector on that page
  returns and the element's \<open>textContent\<close> is read, the getText action succeeds at its
  first attempt: the \<open>text\<close> of its result is \<open>textOf\<close> of that \<open>textContent\<close> and the
  \<open>result\<close> line is \<open>Text content: \<close> followed by it. In particular, when the
  \<open>textContent\<close> is \<open>null\<close> or white space only, the action succeeds and its text is the
  empty string. Conversely, whenever the action succeeds, its result was built in this
  way from the \<open>textContent\<close> read on the page of the Session Store in the last
  invocation of the run. \<open>textOf\<close> of \<open>null\<close> is the empty string; of a string it is the
  string trimmed, which is the string without a white-space prefix and a white-space
  suffix, and which neither starts nor ends with white space; of a string of white
  space only it is the empty string.
\<close>

theorem getText_returns_trimmed_text:
  "(\<forall>p s1 w1 w2 tc.
      ensureBrowser D s = Some (Inr p, s1) \<and>
      waitForSelector D p selector timeout (snd (waitForLoadState D p None (env s1))) =
        (None, w1) \<and>
      evalTextContent D p selector w1 = (Inr tc, w2) \<longrightarrow>
      (\<exists>u. getTextTool D selector timeout s =
              Some (Inr \<lparr>gt_result = js ''Text content: '' @ textOf tc, gt_text = textOf tc\<rparr>, u) \<and>
           store u = store s1 \<and> env u = w2))
   \<and> (\<forall>p s1 w1 w2 tc.
        ensureBrowser D s = Some (Inr p, s1) \<and>
        waitForSelector D p selector timeout (snd (waitForLoadState D p None (env s1))) =
          (None, w1) \<and>
        evalTextContent D p selector w1 = (Inr tc, w2) \<and>
        (tc = None \<or> (\<exists>t. tc = Some t \<and> list_all isWhiteSpace t)) \<longrightarrow>
        (\<exists>u. getTextTool D selector timeout s =
                Some (Inr \<lparr>gt_result = js ''Text content: '', gt_text = []\<rparr>, u)))
   \<and> (\<forall>r s'. getTextTool D selector timeout s = Some (Inr r, s') \<longrightarrow>
        (\<exists>p w0 w1 tc.
            page (store s') = Some p \<and> last (trace s') = Invoke p \<and>
            waitForSelector D p selector timeout (snd (waitForLoadState D p None w0)) =
              (None, w1) \<and>
            evalTextContent D p selector w1 = (Inr tc, env s') \<and>
            gt_text r = textOf tc \<and>
            gt_result r = js ''Text content: '' @ textOf tc))
   \<and> textOf None = []
   \<and> (\<forall>t. textOf (Some t) = trim t)
   \<and> (\<forall>t. list_all isWhiteSpace t \<longrightarrow> textOf (Some t) = [])
   \<and> (\<forall>t. \<exists>pre post. t = pre @ trim t @ post \<and>
          list_all isWhiteSpace pre \<and> list_all isWhiteSpace post)
   \<and> (\<forall>t. trim t \<noteq> [] \<longrightarrow>
          \<not> isWhiteSpace (hd (trim t)) \<and> \<not> isWhiteSpace (last (trim t)))"
proof -
  have c2: "textOf None = []" by (simp add: textOf_def)
  have c3: "\<forall>t. textOf (Some t) = trim t" by (simp add: textOf_def)
  have c4: "\<forall>t. list_all isWhiteSpace t \<longrightarrow> textOf (Some t) = []"
    by (simp add: textOf_def trim_white)
  have f1: "\<forall>p s1 w1 w2 tc.
      ensureBrowser D s = Some (Inr p, s1) \<and>
      waitForSelector D p selector timeout (snd (waitForLoadState D p None (env s1))) =
        (None, w1) \<and>
      evalTextContent D p selector w1 = (Inr tc, w2) \<longrightarrow>
      (\<exists>u. getTextTool D selector timeout s =
              Some (Inr \<lparr>gt_result = js ''Text content: '' @ textOf tc, gt_text = textOf tc\<rparr>, u) \<and>
           store u = store s1 \<and> env u = w2)"
    using getTextTool_first_attempt [of D s] by blast
  have f2: "\<forall>p s1 w1 w2 tc.
        ensureBrowser D s = Some (Inr p, s1) \<and>
        waitForSelector D p selector timeout (snd (waitForLoadState D p None (env s1))) =
          (None, w1) \<and>
        evalTextContent D p selector w1 = (Inr tc, w2) \<and>
        (tc = None \<or> (\<exists>t. tc = Some t \<and> list_all isWhiteSpace t)) \<longrightarrow>
        (\<exists>u. getTextTool D selector timeout s =
                Some (Inr \<lparr>gt_result = js ''Text content: '', gt_text = []\<rparr>, u))"
  proof (intro allI impI)
    fix p s1 w1 w2 tc
    assume a: "ensureBrowser D s = Some (Inr p, s1) \<and>
        waitForSelector D p selector timeout (snd (waitForLoadState D p None (env s1))) =
          (None, w1) \<and>
        evalTextContent D p selector w1 = (Inr tc, w2) \<and>
        (tc = None \<or> (\<exists>t. tc = Some t \<and> list_all isWhiteSpace t))"
    then have "textOf tc = []" using c2 c4 by auto
    moreover from a getTextTool_first_attempt [of D s p s1 selector timeout w1 tc w2]
    obtain u where "getTextTool D selector timeout s =
        Some (Inr \<lparr>gt_result = js ''Text content: '' @ textOf tc, gt_text = textOf tc\<rparr>, u)"
      by blast
    ultimately show "\<exists>u. getTextTool D selector timeout s =
                Some (Inr \<lparr>gt_result = js ''Text content: '', gt_text = []\<rparr>, u)"
      by simp
  qed
  have c1: "\<forall>r s'. getTextTool D selector timeout s = Some (Inr r, s') \<longrightarrow>
        (\<exists>p w0 w1 tc.
            page (store s') = Some p \<and> last (trace s') = Invoke p \<and>
            waitForSelector D p selector timeout (snd (waitForLoadState D p None w0)) =
              (None, w1) \<and>
            evalTextContent D p selector w1 = (Inr tc, env s') \<and>
            gt_text r = textOf tc \<and>
            gt_result r = js ''Text content: '' @ textOf tc)"
  proof (intro allI impI)
    fix r s'
    assume "getTextTool D selector timeout s = Some (Inr r, s')"
    then have "safeLoop D (getTextOperation D selector timeout) 1 0 None s = Some (Inr r, s')"
      by (simp add: getTextTool_def safeBrowserOperation_def)
    from safeLoop_success_from_operation [OF this] obtain p w0 where
      p: "page (store s') = Some p" "last (trace s') = Invoke p"
      and "getTextOperation D selector timeout p (snd (waitForLoadState D p None w0)) =
        (Inr r, env s')" by blast
    from getTextOperation_success [OF this(3)] p
    show "\<exists>p w0 w1 tc.
            page (store s') = Some p \<and> last (trace s') = Invoke p \<and>
            waitForSelector D p selector timeout (snd (waitForLoadState D p None w0)) =
              (None, w1) \<and>
            evalTextContent D p selector w1 = (Inr tc, env s') \<and>
            gt_text r = textOf tc \<and>
            gt_result r = js ''Text content: '' @ textOf tc"
      by blast
  qed
  have c5: "\<forall>t. \<exists>pre post. t = pre @ trim t @ post \<and>
          list_all isWhiteSpace pre \<and> list_all isWhiteSpace post"
    using trim_decomposes by blast
  have c6: "\<forall>t. trim t \<noteq> [] \<longrightarrow>
          \<not> isWhiteSpace (hd (trim t)) \<and> \<not> isWhiteSpace (last (trim t))"
    using trim_ends by blast
  from f1 f2 c1 c2 c3 c4 c5 c6 show ?thesis by (intro conjI)
qed


theorem getText_returns_trimmed_text_witness:
  "(\<exists>u. getTextTool okDriver ''#empty'' 30000 blankTextState =
          Some (Inr \<lparr>gt_result = js ''Text content: '', gt_text = []\<rparr>, u))
   \<and> (\<exists>u. getTextTool okDriver ''#blank'' 30000 blankTextState =
          Some (Inr \<lparr>gt_result = js ''Text content: '', gt_text = []\<rparr>, u))
   \<and> (\<exists>u. getTextTool okDriver ''h1'' 30000 headingState =
          Some (Inr \<lparr>gt_result = js ''Text content: Hello world'',
                     gt_text = js ''Hello world''\<rparr>, u))"
proof -
  let ?b1 = "logger INFO ''Reusing existing browser instance'' [] blankTextState"
  let ?h1 = "logger INFO ''Reusing existing browser instance'' [] headingState"
  have eb: "ensureBrowser okDriver blankTextState = Some (Inr 2, ?b1)"
    by (simp add: ensureBrowser_def getBrowser_eq available_def blankTextState_def readyState_def)
  have eh: "ensureBrowser okDriver headingState = Some (Inr 2, ?h1)"
    by (simp add: ensureBrowser_def getBrowser_eq available_def headingState_def readyState_def)
  have wb: "snd (waitForLoadState okDriver 2 None (env ?b1)) = env blankTextState"
    and wh: "snd (waitForLoadState okDriver 2 None (env ?h1)) = env headingState"
    by simp_all
  have 1: "waitForSelector okDriver 2 ''#empty'' 30000
             (snd (waitForLoadState okDriver 2 None (env ?b1))) = (None, env blankTextState)"
    "evalTextContent okDriver 2 ''#empty'' (env blankTextState) = (Inr None, env blankTextState)"
    unfolding wb by (simp_all add: okDriver_def blankTextState_def)
  have 2: "waitForSelector okDriver 2 ''#blank'' 30000
             (snd (waitForLoadState okDriver 2 None (env ?b1))) = (None, env blankTextState)"
    "evalTextContent okDriver 2 ''#blank'' (env blankTextState) =
       (Inr (Some [0x20, 0x9, 0xA0]), env blankTextState)"
    unfolding wb by (simp_all add: okDriver_def blankTextState_def)
  have 3: "waitForSelector okDriver 2 ''h1'' 30000
             (snd (waitForLoadState okDriver 2 None (env ?h1))) = (None, env headingState)"
    "evalTextContent okDriver 2 ''h1'' (env headingState) =
       (Inr (Some ([0xFEFF, 0x20] @ js ''Hello world'' @ [0xA0, 0xA])), env headingState)"
    unfolding wh by (simp_all add: okDriver_def headingState_def)
  have ws: "list_all isWhiteSpace [0x20, 0x9, 0xA0]" by (simp add: isWhiteSpace_def)
  have tr: "textOf (Some ([0xFEFF, 0x20] @ js ''Hello world'' @ [0xA0, 0xA])) = js ''Hello world''"
    by (simp add: textOf_def trim_def isWhiteSpace_def js_def)
  have h1: "ensureBrowser okDriver blankTextState = Some (Inr 2, ?b1) \<and>
      waitForSelector okDriver 2 ''#empty'' 30000
        (snd (waitForLoadState okDriver 2 None (env ?b1))) = (None, env blankTextState) \<and>
      evalTextContent okDriver 2 ''#empty'' (env blankTextState) = (Inr None, env blankTextState) \<and>
      (None = None \<or> (\<exists>t. (None :: jsstring option) = Some t \<and> list_all isWhiteSpace t))"
    using eb 1 by (intro conjI disjI1) (assumption | rule refl)+
  have h2: "ensureBrowser okDriver blankTextState = Some (Inr 2, ?b1) \<and>
      waitForSelector okDriver 2 ''#blank'' 30000
        (snd (waitForLoadState okDriver 2 None (env ?b1))) = (None, env blankTextState) \<and>
      evalTextContent okDriver 2 ''#blank'' (env blankTextState) =
        (Inr (Some [0x20, 0x9, 0xA0]), env blankTextState) \<and>
      (Some [0x20, 0x9, 0xA0] = None \<or>
       (\<exists>t. Some [0x20, 0x9, 0xA0] = Some t \<and> list_all isWhiteSpace t))"
    using eb 2 ws by (intro conjI disjI2 exI [of _ "[0x20, 0x9, 0xA0]"]) (assumption | rule refl)+
  have h3: "ensureBrowser okDriver headingState = Some (Inr 2, ?h1) \<and>
      waitForSelector okDriver 2 ''h1'' 30000
        (snd (waitForLoadState okDriver 2 None (env ?h1))) = (None, env headingState) \<and>
      evalTextContent okDriver 2 ''h1'' (env headingState) =
        (Inr (Some ([0xFEFF, 0x20] @ js ''Hello world'' @ [0xA0, 0xA])), env headingState)"
    using eh 3 by (intro conjI) (assumption | rule refl)+
  note a = getText_returns_trimmed_text [of okDriver blankTextState "''#empty''" 30000,
      THEN conjunct2, THEN conjunct1, rule_format, OF h1]
  note b = getText_returns_trimmed_text [of okDriver blankTextState "''#blank''" 30000,
      THEN conjunct2, THEN conjunct1, rule_format, OF h2]
  note c = getText_returns_trimmed_text [of okDriver headingState "''h1''" 30000,
      THEN conjunct1, rule_format, OF h3]
  from c have c': "\<exists>u. getTextTool okDriver ''h1'' 30000 headingState =
          Some (Inr \<lparr>gt_result = js ''Text content: Hello world'',
                     gt_text = js ''Hello world''\<rparr>, u)"
    unfolding tr by (auto simp: js_def)
  from a b c' show ?thesis by (intro conjI)
qed

section \<open>Claims about \<open>navigateToUrl\<close>\<close>

lemma scheduleFrom_step:
  "k < 3 \<Longrightarrow>
     scheduleFrom p u k = LoadUrl p u # WaitForTimeout p (5000 * (k + 1)) # scheduleFrom p u (k + 1)"
  by (simp add: scheduleFrom_def upt_conv_Cons)

lemma scheduleFrom_end: "\<not> k < 3 \<Longrightarrow> scheduleFrom p u k = [LoadUrl p u]"
  by (simp add: scheduleFrom_def)

lemma scheduleFrom_0:
  "scheduleFrom p u 0 =
     [LoadUrl p u, WaitForTimeout p 5000, LoadUrl p u, WaitForTimeout p 10000, LoadUrl p u,
      WaitForTimeout p 15000, LoadUrl p u]"
  by (simp add: scheduleFrom_def upt_conv_Cons)

lemma length_scheduleFrom: "k \<le> 3 \<Longrightarrow> length (scheduleFrom p u k) = 2 * (3 - k) + 1"
  by (simp add: scheduleFrom_def length_concat sum_list_triv comp_def)

lemma openInternal_loaded:
  "fst (loadUrl D p u (env s)) = None \<Longrightarrow>
     openInternal D p u k s =
       (None, logger INFO ''Navigate to URL: ${navigationUrl}'' [S u]
                (snd (call (LoadUrl p u) (loadUrl D p u) s)))"
  by (subst openInternal.simps) (simp add: call_eq)

lemma openInternal_gives_up:
  "fst (loadUrl D p u (env s)) = Some e \<Longrightarrow> \<not> k < 3 \<Longrightarrow>
     openInternal D p u k s = (None, snd (call (LoadUrl p u) (loadUrl D p u) s))"
  by (subst openInternal.simps) (simp add: call_eq)

lemma backoffState_simps [simp]:
  "store (backoffState D p u k e s) = store s"
  "env (backoffState D p u k e s) =
     snd (waitForTimeout D p (5000 * (k + 1)) (snd (loadUrl D p u (env s))))"
  "trace (backoffState D p u k e s) =
     trace s @ [LoadUrl p u, Log ERROR ''Error occurred while navigating to URL: '' [E e],
       Log INFO
          ''Failed to navigate to URL ${navigationUrl}, waiting ${waitTime}ms and retrying. Retry # ${retryCount + 1}''
          [S u, N (int (5000 * (k + 1))), N (int (k + 1))],
       WaitForTimeout p (5000 * (k + 1))]"
  by (simp_all add: backoffState_def)

lemma openInternal_backoff_rejected:
  "fst (loadUrl D p u (env s)) = Some e \<Longrightarrow> k < 3 \<Longrightarrow>
   fst (waitForTimeout D p (5000 * (k + 1)) (snd (loadUrl D p u (env s)))) = Some e' \<Longrightarrow>
     openInternal D p u k s = (Some e', backoffState D p u k e s)"
  by (subst openInternal.simps) (simp add: call_eq backoffState_def Let_def)

lemma openInternal_retries:
  "fst (loadUrl D p u (env s)) = Some e \<Longrightarrow> k < 3 \<Longrightarrow>
   fst (waitForTimeout D p (5000 * (k + 1)) (snd (loadUrl D p u (env s)))) = None \<Longrightarrow>
     openInternal D p u k s = openInternal D p u (k + 1) (backoffState D p u k e s)"
  by (subst openInternal.simps) (simp add: call_eq backoffState_def Let_def)


lemma openInternal_schedule:
  "k \<le> 3 \<Longrightarrow>
     \<exists>t n. trace (snd (openInternal D p u k s)) = trace s @ t \<and>
           navSpec D p u k s (fst (openInternal D p u k s)) t n"
proof (induction "3 - k" arbitrary: k s)
  case 0
  then have k: "\<not> k < 3" by simp
  let ?t1 = "[LoadUrl p u, Log INFO ''Navigate to URL: ${navigationUrl}'' [S u]]"
  show ?case
  proof (cases "fst (loadUrl D p u (env s))")
    case None
    then show ?thesis using k
      by (intro exI [of _ ?t1] exI [of _ 1])
         (auto simp: openInternal_loaded navSpec_def scheduleFrom_end isNavStep_def isLoadStateWait_def)
  next
    case (Some e)
    then show ?thesis using k
      by (intro exI [of _ "[LoadUrl p u]"] exI [of _ 1])
         (auto simp: openInternal_gives_up navSpec_def scheduleFrom_end isNavStep_def isLoadStateWait_def)
  qed
next
  case (Suc d)
  then have k: "k < 3" and d: "d = 3 - (k + 1)" and k1: "k + 1 \<le> 3" by simp_all
  let ?t1 = "[LoadUrl p u, Log INFO ''Navigate to URL: ${navigationUrl}'' [S u]]"
  show ?case
  proof (cases "fst (loadUrl D p u (env s))")
    case None
    then show ?thesis using k
      by (intro exI [of _ ?t1] exI [of _ 1])
         (auto simp: openInternal_loaded navSpec_def scheduleFrom_step isNavStep_def isLoadStateWait_def)
  next
    case (Some e)
    let ?b = "backoffState D p u k e s"
    let ?tb = "[LoadUrl p u, Log ERROR ''Error occurred while navigating to URL: '' [E e],
       Log INFO
          ''Failed to navigate to URL ${navigationUrl}, waiting ${waitTime}ms and retrying. Retry # ${retryCount + 1}''
          [S u, N (int (5000 * (k + 1))), N (int (k + 1))],
       WaitForTimeout p (5000 * (k + 1))]"
    have fb: "filter isNavStep ?tb = [LoadUrl p u, WaitForTimeout p (5000 * (k + 1))]"
      "loadStateWaits ?tb = 0"
      by (simp_all add: isNavStep_def isLoadStateWait_def)
    show ?thesis
    proof (cases "fst (waitForTimeout D p (5000 * (k + 1)) (snd (loadUrl D p u (env s))))")
      case rej: (Some e')
      have "openInternal D p u k s = (Some e', ?b)"
        using Some k rej by (rule openInternal_backoff_rejected)
      moreover have "navSpec D p u k s (Some e') ?tb 2"
        unfolding navSpec_def fb using k rej
        by (auto simp: scheduleFrom_step)
      ultimately show ?thesis
        by (intro exI [of _ ?tb] exI [of _ 2]) simp
    next
      case None
      have o: "openInternal D p u k s = openInternal D p u (k + 1) ?b"
        using Some k None by (rule openInternal_retries)
      from Suc.hyps(1) [OF d k1, of ?b] obtain t n where
        tn: "trace (snd (openInternal D p u (k + 1) ?b)) = trace ?b @ t"
          "navSpec D p u (k + 1) ?b (fst (openInternal D p u (k + 1) ?b)) t n"
        by blast
      have "trace (snd (openInternal D p u k s)) = trace s @ (?tb @ t)"
        using tn(1) by (simp add: o)
      moreover have f2: "filter isNavStep (?tb @ t) =
          LoadUrl p u # WaitForTimeout p (5000 * (k + 1)) # filter isNavStep t"
        "loadStateWaits (?tb @ t) = loadStateWaits t"
        by (simp_all add: isNavStep_def isLoadStateWait_def)
      have "navSpec D p u k s (fst (openInternal D p u k s)) (?tb @ t) (n + 2)"
        using tn(2) k unfolding o navSpec_def f2
        by (auto simp: scheduleFrom_step split: option.splits)
      ultimately show ?thesis by blast
    qed
  qed
qed


lemma navigateToUrl_after_open:
  "fst (openInternal D p u 0 s) = None \<Longrightarrow>
     navigateToUrl D p u True s =
       call (WaitForLoadState p (Some LoadTimeOut)) (waitForLoadState D p (Some LoadTimeOut))
         (snd (openInternal D p u 0 s))"
  "fst (openInternal D p u 0 s) = None \<Longrightarrow>
     navigateToUrl D p u False s = openInternal D p u 0 s"
  "fst (openInternal D p u 0 s) = Some e \<Longrightarrow>
     navigateToUrl D p u b s = openInternal D p u 0 s"
  by (cases "openInternal D p u 0 s"; simp add: navigateToUrl_def)+

text \<open>
  C2, as the code has it. One call of \<open>navigateToUrl\<close> issues loads and backoff waits
  in this order and no other: a load, then a wait of 5000 ms and a load, a wait of
  10000 ms and a load, a wait of 15000 ms and a load, stopping at the first load that
  succeeds or the first wait that is rejected; so there are at most 3 retries and the
  wait before the \<open>k\<close>-th is \<open>5000 * k\<close> ms. A load error is never raised: what
  \<open>navigateToUrl\<close> throws is the rejection of a backoff wait or of the dom-content wait.
  When every load fails and no backoff wait is rejected, all four loads are made,
  \<open>openInternal\<close> returns normally, and \<open>navigateToUrl\<close> returns normally when
  \<open>waitToLoadDomContent\<close> is off and otherwise returns what the dom-content wait
  (60000 ms) returns.
\<close>

theorem navigateToUrl_backoff_schedule:
  "\<exists>t n. trace (snd (navigateToUrl D p u waitToLoadDomContent s)) = trace s @ t \<and>
     1 \<le> n \<and> n \<le> 7 \<and>
     filter isNavStep t =
       take n [LoadUrl p u, WaitForTimeout p 5000, LoadUrl p u, WaitForTimeout p 10000,
               LoadUrl p u, WaitForTimeout p 15000, LoadUrl p u] \<and>
     (\<forall>e. fst (navigateToUrl D p u waitToLoadDomContent s) = Some e \<longrightarrow>
        (\<exists>ms w. fst (waitForTimeout D p ms w) = Some e) \<or>
        (waitToLoadDomContent \<and> (\<exists>w. fst (waitForLoadState D p (Some 60000) w) = Some e))) \<and>
     ((\<forall>w. fst (loadUrl D p u w) \<noteq> None) \<and> (\<forall>ms w. fst (waitForTimeout D p ms w) = None) \<longrightarrow>
        n = 7 \<and> fst (openInternal D p u 0 s) = None \<and>
        fst (navigateToUrl D p u waitToLoadDomContent s) =
          (if waitToLoadDomContent
           then fst (waitForLoadState D p (Some 60000) (env (snd (openInternal D p u 0 s))))
           else None))"
proof -
  let ?o = "openInternal D p u 0 s"
  let ?nav = "navigateToUrl D p u waitToLoadDomContent s"
  let ?S = "[LoadUrl p u, WaitForTimeout p 5000, LoadUrl p u, WaitForTimeout p 10000,
               LoadUrl p u, WaitForTimeout p 15000, LoadUrl p u]"
  from openInternal_schedule [of 0 D p u s] obtain t n where
    t: "trace (snd ?o) = trace s @ t" and sp: "navSpec D p u 0 s (fst ?o) t n" by auto
  from sp have n: "1 \<le> n" "n \<le> 7" and f: "filter isNavStep t = take n ?S"
    and r: "case fst ?o of None \<Rightarrow> odd n
            | Some e \<Rightarrow> even n \<and> (\<exists>ms w. fst (waitForTimeout D p ms w) = Some e)"
    and a: "(\<forall>w. fst (loadUrl D p u w) \<noteq> None) \<and> (\<forall>ms w. fst (waitForTimeout D p ms w) = None) \<longrightarrow>
        n = 7 \<and> fst ?o = None"
    by (simp_all add: navSpec_def scheduleFrom_0 length_scheduleFrom)
  show ?thesis
  proof (cases "fst ?o")
    case (Some e)
    then have "?nav = ?o" by (simp add: navigateToUrl_after_open)
    with Some t n f r a show ?thesis
      by (intro exI [of _ t] exI [of _ n]) auto
  next
    case None
    show ?thesis
    proof (cases waitToLoadDomContent)
      case False
      with None have "?nav = ?o" by (simp add: navigateToUrl_after_open)
      with None False t n f a show ?thesis
        by (intro exI [of _ t] exI [of _ n]) auto
    next
      case True
      let ?w = "WaitForLoadState p (Some LoadTimeOut)"
      from None True have nv: "?nav = call ?w (waitForLoadState D p (Some LoadTimeOut)) (snd ?o)"
        by (simp add: navigateToUrl_after_open)
      have "trace (snd ?nav) = trace s @ (t @ [?w])"
        unfolding nv using t by simp
      moreover have "filter isNavStep (t @ [?w]) = take n ?S"
        using f by (simp add: isNavStep_def)
      moreover have "fst ?nav = fst (waitForLoadState D p (Some 60000) (env (snd ?o)))"
        unfolding nv by (simp add: LoadTimeOut_def)
      ultimately show ?thesis
        using n a None True
        by (intro exI [of _ "t @ [?w]"] exI [of _ n]) auto
    qed
  qed
qed


lemmas nav_eval =
  navigateToUrl_def openInternal.simps call_eq Let_def LoadTimeOut_def isNavStep_def
  readyState_def okDriver_def

text \<open>
  The claim as written fails: when no URL loads and the page never settles, the call
  makes its four loads with the three waits between them and then throws, out of the
  dom-content wait.
\<close>

theorem navigateToUrl_throws_after_third_retry:
  "fst (navigateToUrl nothingLoads 2 ''https://example.test'' True readyState) =
     Some (ErrorObj ''Timeout exceeded'') \<and>
   filter isNavStep
     (trace (snd (navigateToUrl nothingLoads 2 ''https://example.test'' True readyState))) =
     [LoadUrl 2 ''https://example.test'', WaitForTimeout 2 5000,
      LoadUrl 2 ''https://example.test'', WaitForTimeout 2 10000,
      LoadUrl 2 ''https://example.test'', WaitForTimeout 2 15000,
      LoadUrl 2 ''https://example.test'']"
  by (simp add: nav_eval nothingLoads_def loadAlwaysFails_def)

theorem navigateToUrl_backoff_schedule_witness:
  "fst (navigateToUrl loadAlwaysFails 2 ''https://example.test'' True readyState) = None \<and>
   filter isNavStep
     (trace (snd (navigateToUrl loadAlwaysFails 2 ''https://example.test'' True readyState))) =
     [LoadUrl 2 ''https://example.test'', WaitForTimeout 2 5000,
      LoadUrl 2 ''https://example.test'', WaitForTimeout 2 10000,
      LoadUrl 2 ''https://example.test'', WaitForTimeout 2 15000,
      LoadUrl 2 ''https://example.test'']"
proof -
  let ?u = "''https://example.test''"
  have h: "(\<forall>w. fst (loadUrl loadAlwaysFails 2 ?u w) \<noteq> None) \<and>
           (\<forall>ms w. fst (waitForTimeout loadAlwaysFails 2 ms w) = None)"
    by (simp add: loadAlwaysFails_def okDriver_def)
  have w: "\<And>w. fst (waitForLoadState loadAlwaysFails 2 (Some 60000) w) = None"
    by (simp add: loadAlwaysFails_def okDriver_def)
  from navigateToUrl_backoff_schedule [of loadAlwaysFails 2 ?u True readyState] h
  obtain t where
    "trace (snd (navigateToUrl loadAlwaysFails 2 ?u True readyState)) = trace readyState @ t"
    "filter isNavStep t =
       take 7 [LoadUrl 2 ?u, WaitForTimeout 2 5000, LoadUrl 2 ?u, WaitForTimeout 2 10000,
               LoadUrl 2 ?u, WaitForTimeout 2 15000, LoadUrl 2 ?u]"
    "fst (navigateToUrl loadAlwaysFails 2 ?u True readyState) =
       fst (waitForLoadState loadAlwaysFails 2 (Some 60000)
              (env (snd (openInternal loadAlwaysFails 2 ?u 0 readyState))))"
    by auto
  then show ?thesis
    by (simp add: w readyState_def)
qed

text \<open>
  C5, as the code has it. The dom-content wait of \<open>navigateToUrl\<close> has the bound 60000
  ms and no \<open>catch\<close>: once the load phase has returned normally, \<open>navigateToUrl\<close> with
  \<open>waitToLoadDomContent\<close> on returns exactly what that wait returns, so a timeout of the
  wait is thrown to the caller, and the wait is the last thing in the trace: nothing
  is logged about it. With \<open>waitToLoadDomContent\<close> off there is no wait. In particular,
  when the first load succeeds the call issues the load, logs it, issues the wait and
  returns the wait's outcome.
\<close>

theorem navigateToUrl_dom_content_timeout_is_thrown:
  "(fst (openInternal D p u 0 s) = None \<longrightarrow>
      fst (navigateToUrl D p u True s) =
        fst (waitForLoadState D p (Some 60000) (env (snd (openInternal D p u 0 s)))) \<and>
      trace (snd (navigateToUrl D p u True s)) =
        trace (snd (openInternal D p u 0 s)) @ [WaitForLoadState p (Some 60000)] \<and>
      navigateToUrl D p u False s = openInternal D p u 0 s)
   \<and> (fst (loadUrl D p u (env s)) = None \<longrightarrow>
      fst (navigateToUrl D p u True s) =
        fst (waitForLoadState D p (Some 60000) (snd (loadUrl D p u (env s)))) \<and>
      trace (snd (navigateToUrl D p u True s)) =
        trace s @ [LoadUrl p u, Log INFO ''Navigate to URL: ${navigationUrl}'' [S u],
                   WaitForLoadState p (Some 60000)])"
proof (intro conjI impI)
  assume o: "fst (openInternal D p u 0 s) = None"
  then show "fst (navigateToUrl D p u True s) =
        fst (waitForLoadState D p (Some 60000) (env (snd (openInternal D p u 0 s))))"
    "trace (snd (navigateToUrl D p u True s)) =
        trace (snd (openInternal D p u 0 s)) @ [WaitForLoadState p (Some 60000)]"
    "navigateToUrl D p u False s = openInternal D p u 0 s"
    by (simp_all add: navigateToUrl_after_open LoadTimeOut_def)
next
  assume l: "fst (loadUrl D p u (env s)) = None"
  then have o: "openInternal D p u 0 s =
       (None, logger INFO ''Navigate to URL: ${navigationUrl}'' [S u]
                (snd (call (LoadUrl p u) (loadUrl D p u) s)))"
    by (rule openInternal_loaded)
  then have "fst (openInternal D p u 0 s) = None" by simp
  then have n: "navigateToUrl D p u True s =
       call (WaitForLoadState p (Some LoadTimeOut)) (waitForLoadState D p (Some LoadTimeOut))
         (snd (openInternal D p u 0 s))"
    by (rule navigateToUrl_after_open)
  show "fst (navigateToUrl D p u True s) =
        fst (waitForLoadState D p (Some 60000) (snd (loadUrl D p u (env s))))"
    "trace (snd (navigateToUrl D p u True s)) =
        trace s @ [LoadUrl p u, Log INFO ''Navigate to URL: ${navigationUrl}'' [S u],
                   WaitForLoadState p (Some 60000)]"
    unfolding n o by (simp_all add: LoadTimeOut_def)
qed

text \<open>
  The claim as written fails: the load succeeds, the dom-content wait times out, and
  the call throws the timeout and logs nothing about it.
\<close>

theorem navigateToUrl_fails_on_dom_content_timeout:
  "fst (navigateToUrl loadStateNeverReached 2 ''https://example.test'' True readyState) =
     Some (ErrorObj ''Timeout exceeded'') \<and>
   trace (snd (navigateToUrl loadStateNeverReached 2 ''https://example.test'' True readyState)) =
     [LoadUrl 2 ''https://example.test'',
      Log INFO ''Navigate to URL: ${navigationUrl}'' [S ''https://example.test''],
      WaitForLoadState 2 (Some 60000)]"
  by (simp add: nav_eval loadStateNeverReached_def logger_def emit_def)

theorem navigateToUrl_dom_content_timeout_is_thrown_witness:
  "fst (navigateToUrl loadStateNeverReached 5 ''https://example.test/docs'' True headingState) =
     Some (ErrorObj ''Timeout exceeded'') \<and>
   trace (snd (navigateToUrl loadStateNeverReached 5 ''https://example.test/docs'' True
     headingState)) =
     [LoadUrl 5 ''https://example.test/docs'',
      Log INFO ''Navigate to URL: ${navigationUrl}'' [S ''https://example.test/docs''],
      WaitForLoadState 5 (Some 60000)]"
proof -
  have l: "fst (loadUrl loadStateNeverReached 5 ''https://example.test/docs'' (env headingState)) =
      None"
    by (simp add: loadStateNeverReached_def okDriver_def)
  have w: "\<And>w. fst (waitForLoadState loadStateNeverReached 5 (Some 60000) w) =
      Some (ErrorObj ''Timeout exceeded'')"
    by (simp add: loadStateNeverReached_def okDriver_def)
  from navigateToUrl_dom_content_timeout_is_thrown
    [of loadStateNeverReached 5 "''https://example.test/docs''" headingState] l
  show ?thesis
    by (simp add: w headingState_def readyState_def)
qed

section \<open>Claims about \<open>closeBrowserTool\<close> and the failure handler\<close>

lemma resetBrowserState_trace:
  "\<exists>t. trace (resetBrowserState D s) = trace s @ t"
  by (simp add: resetBrowserState_def split: option.splits)

lemma closeBrowserTool_with_browser:
  assumes "tc_browser toolContext = Some b"
  shows "fst (closeBrowserTool D (Some toolContext) s) = Inr ''Browser closed successfully''"
    and "isConnected D b (env s) \<Longrightarrow>
           \<exists>t. trace (snd (closeBrowserTool D (Some toolContext) s)) = trace s @ CloseBrowser b # t"
proof -
  show "fst (closeBrowserTool D (Some toolContext) s) = Inr ''Browser closed successfully''"
    using assms by (simp add: closeBrowserTool_def Let_def)
next
  assume c: "isConnected D b (env s)"
  let ?s1 = "(case call (CloseBrowser b) (closeBrowser D b) s of
               (Some e, s') \<Rightarrow> logger CONSOLE_ERROR ''Error while closing browser:'' [E e] s'
             | (None, s') \<Rightarrow> s')"
  have "\<exists>t1. trace ?s1 = trace s @ CloseBrowser b # t1"
    by (simp add: call_eq split: option.splits)
  then obtain t1 where t1: "trace ?s1 = trace s @ CloseBrowser b # t1" by blast
  from resetBrowserState_trace [of D ?s1] obtain t2 where
    t2: "trace (resetBrowserState D ?s1) = trace ?s1 @ t2" by blast
  have "snd (closeBrowserTool D (Some toolContext) s) = resetBrowserState D ?s1"
    using assms c by (simp add: closeBrowserTool_def Let_def)
  with t1 t2 have "trace (snd (closeBrowserTool D (Some toolContext) s)) =
      trace s @ CloseBrowser b # (t1 @ t2)" by simp
  then show "\<exists>t. trace (snd (closeBrowserTool D (Some toolContext) s)) =
      trace s @ CloseBrowser b # t" by blast
qed

text \<open>
  The closeBrowser action never looks at the Session Store: it reads the context object
  it is handed. When it is handed none, it throws a \<open>TypeError\<close>. When the object
  carries no browser, the action returns the string \<open>No browser instance to close\<close> and
  leaves everything as it was. When the object carries a browser, it returns
  \<open>Browser closed successfully\<close>, and if that browser is connected a close of it has
  been issued.
\<close>

lemma closeBrowserTool_cases:
  "closeBrowserTool D None s = (Inl typeError, s)
   \<and> (tc_browser toolContext = None \<longrightarrow>
        closeBrowserTool D (Some toolContext) s = (Inr ''No browser instance to close'', s))
   \<and> (\<forall>b. tc_browser toolContext = Some b \<longrightarrow>
        fst (closeBrowserTool D (Some toolContext) s) = Inr ''Browser closed successfully'' \<and>
        (isConnected D b (env s) \<longrightarrow>
           (\<exists>t. trace (snd (closeBrowserTool D (Some toolContext) s)) =
                  trace s @ CloseBrowser b # t)))"
proof (intro conjI allI impI)
  show "closeBrowserTool D None s = (Inl typeError, s)"
    by (simp add: closeBrowserTool_def)
next
  assume "tc_browser toolContext = None"
  then show "closeBrowserTool D (Some toolContext) s = (Inr ''No browser instance to close'', s)"
    by (simp add: closeBrowserTool_def)
next
  fix b
  assume "tc_browser toolContext = Some b"
  then show "fst (closeBrowserTool D (Some toolContext) s) = Inr ''Browser closed successfully''"
    by (rule closeBrowserTool_with_browser(1))
next
  fix b
  assume "tc_browser toolContext = Some b" "isConnected D b (env s)"
  then show "\<exists>t. trace (snd (closeBrowserTool D (Some toolContext) s)) =
                  trace s @ CloseBrowser b # t"
    by (rule closeBrowserTool_with_browser(2))
qed

text \<open>
  C6 fails when no session exists, that is on the empty store, and the action is
  invoked without a context object, as \<open>closeBrowserTool.invoke({})\<close> does: the action
  throws a \<open>TypeError\<close> and returns no string. The branch that returns a string is
  reached only with a context object that carries no browser, and the string is
  \<open>No browser instance to close\<close>. The store is never consulted: on the empty store a
  context object that carries a browser makes the action issue a close.
\<close>

theorem closeBrowserTool_throws_without_context:
  "store (initial tenv0) = emptyStore \<and>
   closeBrowserTool okDriver None (initial tenv0) = (Inl typeError, initial tenv0) \<and>
   closeBrowserTool okDriver (Some noBrowserContext) (initial tenv0) =
     (Inr ''No browser instance to close'', initial tenv0) \<and>
   closeBrowserTool okDriver (Some sessionContext) (initial tenv0) =
     (Inr ''Browser closed successfully'',
      \<lparr>store = emptyStore, trace = [CloseBrowser 0, Log INFO ''Browser state reset'' []],
       env = tenv0\<rparr>)"
  by (simp add: closeBrowserTool_def resetBrowserState_def openPage_def reset_finally_def
      noBrowserContext_def sessionContext_def initial_def emptyStore_def Let_def call_def
      emit_def logger_def okDriver_def)

lemma includes_str_sublist: "includes_str m k \<longleftrightarrow> sublist k m"
  by (induction m) (simp_all add: sublist_Cons_right)

lemma includes_str_iff: "includes_str m k \<longleftrightarrow> (\<exists>pre post. m = pre @ k @ post)"
  by (simp add: includes_str_sublist sublist_def)

text \<open>
  The handler passes no context to the action. Whenever the framework rejects the
  invocation, runs the action without a context object, or runs it with one that
  carries no browser, the handler closes nothing and leaves the store as it was; it
  exits with status 1 exactly when the message contains \<open>critical\<close> or \<open>timeout\<close>.
\<close>

lemma handleToolError_closes_nothing:
  assumes "(\<exists>e. fw = Rejects e) \<or> fw = Runs None \<or>
           (\<exists>c. fw = Runs (Some c) \<and> tc_browser c = None)"
  shows "store (snd (handleToolError D fw msg s)) = store s"
    and "env (snd (handleToolError D fw msg s)) = env s"
    and "filter isClose (trace (snd (handleToolError D fw msg s))) = filter isClose (trace s)"
    and "fst (handleToolError D fw msg s) =
           (if includes_str msg ''critical'' \<or> includes_str msg ''timeout''
            then Exited 1 else Returned)"
  using assms
  by (auto simp: handleToolError_def closeBrowserTool_def Let_def isClose_def
      simp del: includes_str.simps)

text \<open>
  C4 fails on the tool error \<open>critical: element not interactable\<close> raised while the
  Session Store holds a live session. The handler invokes the closeBrowser action
  without a context. Whether the framework rejects the invocation, runs the action
  without a context object (the action then throws a \<open>TypeError\<close>, which the handler
  catches), or runs it with a context that carries no browser, the handler exits with
  status 1 and has closed nothing: no close of a page, a context or a browser was
  issued, and the store still holds the three handles of the session.
\<close>

theorem handleToolError_exits_with_session_open:
  "includes_str ''critical: element not interactable'' ''critical'' \<and>
   store readyState =
     \<lparr>browser = Some 0, bcontext = Some 1, page = Some 2, isInitializing = False\<rparr> \<and>
   fst (handleToolError okDriver (Rejects schemaError)
          ''critical: element not interactable'' readyState) = Exited 1 \<and>
   store (snd (handleToolError okDriver (Rejects schemaError)
          ''critical: element not interactable'' readyState)) = store readyState \<and>
   filter isClose (trace (snd (handleToolError okDriver (Rejects schemaError)
          ''critical: element not interactable'' readyState))) = [] \<and>
   fst (handleToolError okDriver (Runs None)
          ''critical: element not interactable'' readyState) = Exited 1 \<and>
   store (snd (handleToolError okDriver (Runs None)
          ''critical: element not interactable'' readyState)) = store readyState \<and>
   filter isClose (trace (snd (handleToolError okDriver (Runs None)
          ''critical: element not interactable'' readyState))) = [] \<and>
   Log ERROR ''Failed to close browser after test failure'' [E typeError] \<in>
     set (trace (snd (handleToolError okDriver (Runs None)
          ''critical: element not interactable'' readyState))) \<and>
   fst (handleToolError okDriver (Runs (Some noBrowserContext))
          ''critical: element not interactable'' readyState) = Exited 1 \<and>
   store (snd (handleToolError okDriver (Runs (Some noBrowserContext))
          ''critical: element not interactable'' readyState)) = store readyState \<and>
   filter isClose (trace (snd (handleToolError okDriver (Runs (Some noBrowserContext))
          ''critical: element not interactable'' readyState))) = []"
proof -
  have i: "includes_str ''critical: element not interactable'' ''critical''" by simp
  have s: "store readyState =
     \<lparr>browser = Some 0, bcontext = Some 1, page = Some 2, isInitializing = False\<rparr>"
    "filter isClose (trace readyState) = []"
    by (simp_all add: readyState_def)
  have n: "tc_browser noBrowserContext = None" by (simp add: noBrowserContext_def)
  note a = handleToolError_closes_nothing [where fw = "Rejects schemaError" and D = okDriver
      and msg = "''critical: element not interactable''" and s = readyState]
  note b = handleToolError_closes_nothing [where fw = "Runs None" and D = okDriver
      and msg = "''critical: element not interactable''" and s = readyState]
  note c = handleToolError_closes_nothing [where fw = "Runs (Some noBrowserContext)"
      and D = okDriver and msg = "''critical: element not interactable''" and s = readyState]
  have a': "fst (handleToolError okDriver (Rejects schemaError)
          ''critical: element not interactable'' readyState) = Exited 1"
    "store (snd (handleToolError okDriver (Rejects schemaError)
          ''critical: element not interactable'' readyState)) = store readyState"
    "filter isClose (trace (snd (handleToolError okDriver (Rejects schemaError)
          ''critical: element not interactable'' readyState))) = []"
    using a i s(2) by (simp_all del: includes_str.simps)
  have b': "fst (handleToolError okDriver (Runs None)
          ''critical: element not interactable'' readyState) = Exited 1"
    "store (snd (handleToolError okDriver (Runs None)
          ''critical: element not interactable'' readyState)) = store readyState"
    "filter isClose (trace (snd (handleToolError okDriver (Runs None)
          ''critical: element not interactable'' readyState))) = []"
    using b i s(2) by (simp_all del: includes_str.simps)
  have c': "fst (handleToolError okDriver (Runs (Some noBrowserContext))
          ''critical: element not interactable'' readyState) = Exited 1"
    "store (snd (handleToolError okDriver (Runs (Some noBrowserContext))
          ''critical: element not interactable'' readyState)) = store readyState"
    "filter isClose (trace (snd (handleToolError okDriver (Runs (Some noBrowserContext))
          ''critical: element not interactable'' readyState))) = []"
    using c i s(2) n by (simp_all del: includes_str.simps)
  have l: "Log ERROR ''Failed to close browser after test failure'' [E typeError] \<in>
     set (trace (snd (handleToolError okDriver (Runs None)
          ''critical: element not interactable'' readyState)))"
    using i by (simp add: handleToolError_def closeBrowserTool_def Let_def
        del: includes_str.simps)
  from i s(1) a' b' l c' show ?thesis by (intro conjI)
qed

text \<open>
  Even when the action is handed the handles of the session, the handler exits before
  the reset it started has run: the browser's close was awaited, of the reset only the
  close of the page has been issued, and the store still holds the three handles.
\<close>

lemma handleToolError_exits_with_reset_pending:
  "handleToolError okDriver (Runs (Some sessionContext)) ''critical: element not interactable''
     readyState =
   (Exited 1,
    readyState\<lparr>trace :=
      [Log ERROR ''TOOL_FAILED'' [E (ErrorObj ''critical: element not interactable'')],
       Log CONSOLE_LOG ''TOOL FAILED: ${error.message}'' [S ''critical: element not interactable''],
       Log CONSOLE_LOG ''Attempting to close browser due to test failure'' [],
       CloseBrowser 0,
       ClosePage 2,
       Log INFO ''Browser closed due to test failure'' [],
       Log CONSOLE_LOG ''CRITICAL TEST FAILURE - EXITING PROCESS'' [],
       Exit 1]\<rparr>)"
  by (simp add: handleToolError_def closeBrowserTool_def resetBrowserState_def openPage_def
      sessionContext_def readyState_def Let_def call_def emit_def logger_def okDriver_def)

section \<open>Claims about \<open>handleCommonPopups\<close>\<close>

lemma scanSelectors_count_throws:
  "fst (locatorCount D p x (env s)) = Inl e \<Longrightarrow>
     scanSelectors D p (x # xs) s = (Some e, snd (call (LocatorCount p x) (locatorCount D p x) s))"
  by (simp add: call_eq)

lemma scanSelectors_none:
  "fst (locatorCount D p x (env s)) = Inr 0 \<Longrightarrow>
     scanSelectors D p (x # xs) s =
       scanSelectors D p xs (snd (call (LocatorCount p x) (locatorCount D p x) s))"
  by (simp add: call_eq)

lemma clickState_simps [simp]:
  "trace (clickState D p x s) =
     trace s @ [LocatorCount p x,
       Log INFO ''Found consent button with selector: ${selector}'' [S x], LocatorClick p x]"
  "env (clickState D p x s) =
     snd (locatorClick D p x (snd (locatorCount D p x (env s))))"
  "store (clickState D p x s) = store s"
  by (simp_all add: clickState_def)

lemma scanSelectors_click:
  "fst (locatorCount D p x (env s)) = Inr c \<Longrightarrow> 0 < c \<Longrightarrow>
     scanSelectors D p (x # xs) s =
       (None,
        case fst (locatorClick D p x (snd (locatorCount D p x (env s)))) of
          Some e \<Rightarrow> logger INFO ''Failed to click consent button: ${e.message}'' [E e]
                      (clickState D p x s)
        | None \<Rightarrow> clickState D p x s)"
  by (simp add: call_eq clickState_def Let_def split: option.splits)

lemma scanSelectors_spec:
  "\<exists>t n. trace (snd (scanSelectors D p sels s)) = trace s @ t \<and>
         scanSpec D p sels (env s) (fst (scanSelectors D p sels s)) t n"
proof (induction sels arbitrary: s)
  case Nil
  show ?case
    by (intro exI [of _ "[]"] exI [of _ 0]) (simp add: scanSpec_def)
next
  case (Cons x xs)
  let ?s1 = "snd (call (LocatorCount p x) (locatorCount D p x) s)"
  show ?case
  proof (cases "fst (locatorCount D p x (env s))")
    case (Inl e)
    have "scanSpec D p (x # xs) (env s) (Some e) [LocatorCount p x] 1"
      using Inl by (auto simp: scanSpec_def isCount_def isClick_def)
    with Inl show ?thesis
      by (intro exI [of _ "[LocatorCount p x]"] exI [of _ 1])
         (simp add: scanSelectors_count_throws del: scanSelectors.simps)
  next
    case (Inr c)
    show ?thesis
    proof (cases "c = 0")
      case True
      with Inr have z: "fst (locatorCount D p x (env s)) = Inr 0" by simp
      then have sc: "scanSelectors D p (x # xs) s = scanSelectors D p xs ?s1"
        by (rule scanSelectors_none)
      from Cons.IH [of ?s1] obtain t n where
        t: "trace (snd (scanSelectors D p xs ?s1)) = trace ?s1 @ t"
        and sp: "scanSpec D p xs (env ?s1) (fst (scanSelectors D p xs ?s1)) t n" by blast
      have tr: "trace (snd (scanSelectors D p (x # xs) s)) = trace s @ (LocatorCount p x # t)"
        unfolding sc using t by simp
      have pure: "(\<forall>sel w'. snd (locatorCount D p sel w') = w') \<Longrightarrow> env ?s1 = env s"
        by simp
      have "scanSpec D p (x # xs) (env s) (fst (scanSelectors D p xs ?s1))
               (LocatorCount p x # t) (Suc n)"
      proof (cases "filter isClick t = []")
        case True
        with sp z pure show ?thesis
          unfolding scanSpec_def
          by (auto simp: isCount_def isClick_def split: option.splits sum.splits)
      next
        case False
        with sp have n: "1 \<le> n" unfolding scanSpec_def by auto
        then have nth: "(x # xs) ! n = xs ! (n - 1)" by (cases n) simp_all
        have l: "last (LocatorCount p x # t) = last t"
          using False by auto
        from sp z pure False n show ?thesis
          unfolding scanSpec_def
          by (auto simp: isCount_def isClick_def nth l split: option.splits sum.splits)
      qed
      with tr show ?thesis unfolding sc by blast
    next
      case False
      then have c: "0 < c" by simp
      let ?cl = "fst (locatorClick D p x (snd (locatorCount D p x (env s))))"
      let ?t = "[LocatorCount p x,
         Log INFO ''Found consent button with selector: ${selector}'' [S x], LocatorClick p x] @
         (case ?cl of Some e \<Rightarrow> [Log INFO ''Failed to click consent button: ${e.message}'' [E e]]
          | None \<Rightarrow> [])"
      have sc: "fst (scanSelectors D p (x # xs) s) = None"
        "trace (snd (scanSelectors D p (x # xs) s)) = trace s @ ?t"
        using Inr c by (simp_all add: scanSelectors_click del: scanSelectors.simps split: option.splits)
      have f: "filter isCount ?t = [LocatorCount p x]" "filter isClick ?t = [LocatorClick p x]"
        by (simp_all add: isCount_def isClick_def split: option.splits)
      have la: "(?cl = None \<and> last ?t = LocatorClick p x) \<or>
        (\<exists>e. ?cl = Some e \<and> last ?t = Log INFO ''Failed to click consent button: ${e.message}'' [E e])"
        by (cases ?cl) simp_all
      have "scanSpec D p (x # xs) (env s) None ?t 1"
        unfolding scanSpec_def f using Inr c la
        by auto
      with sc show ?thesis
        by (intro exI [of _ ?t] exI [of _ 1]) simp
    qed
  qed
qed


text \<open>
  C7, as the code has it. One pass of the popup suppressor registers the dialog
  handler, then probes the selectors of the fixed list in order, each with a \<open>count\<close>,
  and stops at the first whose count is positive: it clicks that one and probes no
  later selector, so at most one click is issued per pass. Whether the element is
  visible or clickable is not looked at: when the click is rejected the failure is
  logged, nothing else is tried, and the pass still returns normally. The pass throws
  only what a \<open>count\<close> throws. When counting leaves the page as it is, the selector
  clicked is the first of the list whose count on the page is not zero.
\<close>

theorem handleCommonPopups_clicks_first_match:
  "\<exists>t n. trace (snd (handleCommonPopups D p s)) =
           trace s @
             Log INFO ''Setting up popup handlers and checking for existing popups'' [] #
             OnDialog p # t \<and>
     length (filter isClick t) \<le> 1 \<and>
     n \<le> length commonConsentSelectors \<and>
     filter isCount t = map (LocatorCount p) (take n commonConsentSelectors) \<and>
     (filter isClick t = [] \<or>
      (1 \<le> n \<and> filter isClick t = [LocatorClick p (commonConsentSelectors ! (n - 1))] \<and>
       fst (handleCommonPopups D p s) = None \<and>
       (\<exists>w'. (fst (locatorClick D p (commonConsentSelectors ! (n - 1)) w') = None \<and>
               last t = LocatorClick p (commonConsentSelectors ! (n - 1))) \<or>
              (\<exists>e. fst (locatorClick D p (commonConsentSelectors ! (n - 1)) w') = Some e \<and>
                   last t = Log INFO ''Failed to click consent button: ${e.message}'' [E e])))) \<and>
     (\<forall>e. fst (handleCommonPopups D p s) = Some e \<longrightarrow>
        (\<exists>sel w'. fst (locatorCount D p sel w') = Inl e)) \<and>
     ((\<forall>sel w'. snd (locatorCount D p sel w') = w') \<longrightarrow>
        (case find (\<lambda>sel. fst (locatorCount D p sel (env s)) \<noteq> Inr 0) commonConsentSelectors of
           None \<Rightarrow> fst (handleCommonPopups D p s) = None \<and> filter isClick t = [] \<and>
                   n = length commonConsentSelectors
         | Some sel \<Rightarrow>
             (case fst (locatorCount D p sel (env s)) of
                Inl e \<Rightarrow> fst (handleCommonPopups D p s) = Some e \<and> filter isClick t = []
              | Inr c \<Rightarrow> fst (handleCommonPopups D p s) = None \<and>
                         filter isClick t = [LocatorClick p sel])))"
proof -
  let ?s0 = "emit (OnDialog p)
          (logger INFO ''Setting up popup handlers and checking for existing popups'' [] s)"
  have h: "handleCommonPopups D p s = scanSelectors D p commonConsentSelectors ?s0"
    by (simp add: handleCommonPopups_def)
  from scanSelectors_spec [of D p commonConsentSelectors ?s0] obtain t n where
    t: "trace (snd (scanSelectors D p commonConsentSelectors ?s0)) = trace ?s0 @ t"
    and sp: "scanSpec D p commonConsentSelectors (env ?s0)
               (fst (scanSelectors D p commonConsentSelectors ?s0)) t n"
    by blast
  from sp have sp': "scanSpec D p commonConsentSelectors (env s)
               (fst (scanSelectors D p commonConsentSelectors ?s0)) t n"
    by simp
  from sp have "length (filter isClick t) \<le> 1"
    unfolding scanSpec_def by auto
  with t sp' show ?thesis
    unfolding h scanSpec_def
    by (intro exI [of _ t] exI [of _ n]) simp
qed


lemmas popup_eval =
  handleCommonPopups_def commonConsentSelectors_def call_eq Let_def okDriver_def
  readyState_def actionable_def isClick_def logger_def emit_def

text \<open>
  The claim as written fails: on a page whose first matching button is hidden and
  whose visible button matches a later selector, the pass tries the hidden one, fails,
  and never clicks the visible one the claim names.
\<close>

theorem handleCommonPopups_ignores_visibility:
  \<open>firstActionableSelector (dom (env consentState)) commonConsentSelectors =
     Some ''button:has-text("Accept")'' \<and>
   filter isClick (trace (snd (handleCommonPopups okDriver 2 consentState))) =
     [LocatorClick 2 ''button[aria-label*="Accept"]''] \<and>
   fst (locatorClick okDriver 2 ''button[aria-label*="Accept"]'' (env consentState)) =
     Some (ErrorObj ''Timeout 30000ms exceeded'')\<close>
  by (simp add: popup_eval consentState_def firstActionableSelector_def)

theorem handleCommonPopups_clicks_first_match_witness:
  "fst (handleCommonPopups okDriver 2 bannerState) = None \<and>
   (\<exists>t. trace (snd (handleCommonPopups okDriver 2 bannerState)) =
          Log INFO ''Setting up popup handlers and checking for existing popups'' [] #
          OnDialog 2 # t \<and>
        filter isClick t = [LocatorClick 2 ''#consent button''])"
proof -
  have pure: "\<forall>sel w'. snd (locatorCount okDriver 2 sel w') = w'"
    by (simp add: okDriver_def)
  have f: "find (\<lambda>sel. fst (locatorCount okDriver 2 sel (env bannerState)) \<noteq> Inr 0)
             commonConsentSelectors = Some ''#consent button''"
    by (simp add: commonConsentSelectors_def okDriver_def bannerState_def readyState_def)
  have c: "fst (locatorCount okDriver 2 ''#consent button'' (env bannerState)) = Inr 1"
    by (simp add: okDriver_def bannerState_def readyState_def)
  from handleCommonPopups_clicks_first_match [of okDriver 2 bannerState] pure
  obtain t where
    "trace (snd (handleCommonPopups okDriver 2 bannerState)) =
           trace bannerState @
             Log INFO ''Setting up popup handlers and checking for existing popups'' [] #
             OnDialog 2 # t"
    "fst (handleCommonPopups okDriver 2 bannerState) = None"
    "filter isClick t = [LocatorClick 2 ''#consent button'']"
    unfolding f by (auto simp: c)
  then show ?thesis
    by (simp add: bannerState_def readyState_def)
qed

end
